theory Spec2Isabelle
  imports Main "HOL-Library.AList"
begin

section \<open>Strings and exceptions\<close>

text \<open>
  A Python \<open>str\<close> is a sequence of Unicode code points. The model keeps the code points
  below 256 (Basic Latin and Latin-1 Supplement), one per \<^typ>\<open>char\<close>, so that
  \<open>length\<close> counts what Python's \<open>len\<close> counts. On this range
  \<^item> \<open>str.isdigit\<close> is true of \<open>0\<close> to \<open>9\<close> and of the superscript digits U+00B2, U+00B3
    and U+00B9 (characters of Numeric_Type Digit), and
  \<^item> the regular expression class \<open>\d\<close> (Unicode category Nd) is \<open>0\<close> to \<open>9\<close> only.
\<close>

datatype error =
    PhoneValidationError string
  | MissingPhoneError string
  | DateValidationError string
  | ValueError
  | IndexError
  | KeyError
  | AttributeError
  | OverflowError

text \<open>
  A method that mutates its object and may raise: the outcome carries the object as it
  is when the method returns or when the exception leaves it.
\<close>

datatype 's outcome = Return 's | Raised error 's

fun state_of :: "'s outcome \<Rightarrow> 's" where
  "state_of (Return s) = s"
| "state_of (Raised e s) = s"

definition ascii_digit :: "char \<Rightarrow> bool" where
  "ascii_digit c = (c \<in> set ''0123456789'')"

definition char_isdigit :: "char \<Rightarrow> bool" where
  "char_isdigit c = (ascii_digit c \<or> c = CHR 0xB2 \<or> c = CHR 0xB3 \<or> c = CHR 0xB9)"

text \<open>\<open>str.isdigit()\<close>: every character is a digit and there is at least one.\<close>

definition isdigit :: "string \<Rightarrow> bool" where
  "isdigit s = (s \<noteq> [] \<and> list_all char_isdigit s)"

section \<open>Fields\<close>

text \<open>Class \<open>Field\<close>: one attribute, \<open>value\<close>. \<open>Name\<close> adds nothing to it.\<close>

datatype Field = Field (value_of: string)

definition Name :: "string \<Rightarrow> Field" where
  "Name v = Field v"

definition Phone :: "string \<Rightarrow> error + Field" where
  "Phone v =
     (if length v \<noteq> 10 then Inl (PhoneValidationError ''Phone number must be 10 digits long'')
      else if \<not> isdigit v then Inl (PhoneValidationError ''Phone number must contain digits only'')
      else Inr (Field v))"

section \<open>Dates\<close>

text \<open>
  The standard library's \<open>datetime\<close>, as far as the program uses it. The program reads
  of a \<open>datetime\<close> only its year, month and day (\<open>toordinal\<close>, \<open>weekday\<close>, \<open>replace\<close>
  of the year, \<open>strftime\<close> of day, month and year, and the addition of whole days),
  so the model carries these three fields; Python's integers are \<open>int\<close>.
\<close>

record datetime =
  year :: int
  month :: int
  day :: int

definition MINYEAR :: int where "MINYEAR = 1"
definition MAXYEAR :: int where "MAXYEAR = 9999"
definition MAXORDINAL :: int where "MAXORDINAL = 3652059"

definition DAYS_IN_MONTH :: "int list" where
  "DAYS_IN_MONTH = [-1, 31, 28, 31, 30, 31, 30, 31, 31, 30, 31, 30, 31]"

definition DAYS_BEFORE_MONTH :: "int list" where
  "DAYS_BEFORE_MONTH = [-1, 0, 31, 59, 90, 120, 151, 181, 212, 243, 273, 304, 334]"

definition is_leap :: "int \<Rightarrow> bool" where
  "is_leap y = (y mod 4 = 0 \<and> (y mod 100 \<noteq> 0 \<or> y mod 400 = 0))"

definition days_before_year :: "int \<Rightarrow> int" where
  "days_before_year y' = (let y = y' - 1 in y * 365 + y div 4 - y div 100 + y div 400)"

definition days_in_month :: "int \<Rightarrow> int \<Rightarrow> int" where
  "days_in_month y m = (if m = 2 \<and> is_leap y then 29 else DAYS_IN_MONTH ! nat m)"

definition days_before_month :: "int \<Rightarrow> int \<Rightarrow> int" where
  "days_before_month y m = DAYS_BEFORE_MONTH ! nat m + (if m > 2 \<and> is_leap y then 1 else 0)"

definition ymd2ord :: "int \<Rightarrow> int \<Rightarrow> int \<Rightarrow> int" where
  "ymd2ord y m d = days_before_year y + days_before_month y m + d"

text \<open>The constructor's range check: a date outside it raises ValueError.\<close>

definition check_date_fields :: "int \<Rightarrow> int \<Rightarrow> int \<Rightarrow> bool" where
  "check_date_fields y m d =
     (MINYEAR \<le> y \<and> y \<le> MAXYEAR \<and> 1 \<le> m \<and> m \<le> 12 \<and> 1 \<le> d \<and> d \<le> days_in_month y m)"

definition new_datetime :: "int \<Rightarrow> int \<Rightarrow> int \<Rightarrow> error + datetime" where
  "new_datetime y m d =
     (if check_date_fields y m d then Inr \<lparr>year = y, month = m, day = d\<rparr> else Inl ValueError)"

definition toordinal :: "datetime \<Rightarrow> int" where
  "toordinal dt = ymd2ord (year dt) (month dt) (day dt)"

definition weekday :: "datetime \<Rightarrow> int" where
  "weekday dt = (toordinal dt + 6) mod 7"

text \<open>\<open>dt.replace(year=y)\<close>: a new object, through the constructor's check.\<close>

definition replace_year :: "datetime \<Rightarrow> int \<Rightarrow> error + datetime" where
  "replace_year dt y = new_datetime y (month dt) (day dt)"

text \<open>
  The inverse of \<open>ymd2ord\<close>, by the cycles of 400, 100, 4 and 1 years
  (146097, 36524, 1461 and 365 days).
\<close>

definition ord2ymd :: "int \<Rightarrow> int \<times> int \<times> int" where
  "ord2ymd n0 =
     (let n = n0 - 1;
          n400 = n div 146097; n = n mod 146097;
          y = n400 * 400 + 1;
          n100 = n div 36524; n = n mod 36524;
          n4 = n div 1461; n = n mod 1461;
          n1 = n div 365; n = n mod 365;
          y = y + n100 * 100 + n4 * 4 + n1
      in if n1 = 4 \<or> n100 = 4 then (y - 1, 12, 31)
         else
           let leapyear = (n1 = 3 \<and> (n4 \<noteq> 24 \<or> n100 = 3));
               m = (n + 50) div 32;
               preceding = DAYS_BEFORE_MONTH ! nat m + (if m > 2 \<and> leapyear then 1 else 0)
           in if preceding > n
              then (y, m - 1,
                    n - (preceding - (DAYS_IN_MONTH ! nat (m - 1)
                                      + (if m - 1 = 2 \<and> leapyear then 1 else 0))) + 1)
              else (y, m, n - preceding + 1))"

definition fromordinal :: "int \<Rightarrow> datetime" where
  "fromordinal n = (case ord2ymd n of (y, m, d) \<Rightarrow> \<lparr>year = y, month = m, day = d\<rparr>)"

text \<open>\<open>dt + timedelta(days=n)\<close>: OverflowError outside the ordinals 1 to MAXORDINAL.\<close>

definition add_days :: "datetime \<Rightarrow> int \<Rightarrow> error + datetime" where
  "add_days dt n =
     (let days = toordinal dt + n
      in if 0 < days \<and> days \<le> MAXORDINAL then Inr (fromordinal days) else Inl OverflowError)"

subsection \<open>Formatting: \<open>strftime("%d.%m.%Y")\<close>\<close>

text \<open>
  Day and month as two digits and the year as four, as the library documents \<open>%d\<close>,
  \<open>%m\<close> and \<open>%Y\<close>. (Platforms differ on \<open>%Y\<close> for years below 1000; the dates
  formatted here are in the year of today or the next.)
\<close>

definition digit_char :: "int \<Rightarrow> char" where
  "digit_char n = ''0123456789'' ! nat n"

definition pad2 :: "int \<Rightarrow> string" where
  "pad2 n = [digit_char (n div 10 mod 10), digit_char (n mod 10)]"

definition pad4 :: "int \<Rightarrow> string" where
  "pad4 n = [digit_char (n div 1000 mod 10), digit_char (n div 100 mod 10),
             digit_char (n div 10 mod 10), digit_char (n mod 10)]"

definition date_to_string :: "datetime \<Rightarrow> string" where
  "date_to_string date = pad2 (day date) @ ''.'' @ pad2 (month date) @ ''.'' @ pad4 (year date)"

subsection \<open>Parsing: \<open>strptime(s, "%d.%m.%Y")\<close>\<close>

text \<open>
  \<open>strptime\<close> compiles the format to the regular expression
  \<^verbatim>\<open>(?P<d>3[0-1]|[1-2]\d|0[1-9]|[1-9]| [1-9])\.(?P<m>1[0-2]|0[1-9]|[1-9])\.(?P<Y>\d\d\d\d)\<close>
  and matches it at the start of the string; text left over after the match, a string
  that does not match, and fields that are no date all raise ValueError. Each piece of
  the expression is a function from the input to the list of its matches, a matched text
  with the rest of the input, in the order in which backtracking tries them. The class
  \<open>\d\<close> is the decimal digits of Unicode: among the characters below U+0100, which are
  those of the model, \<open>0\<close> to \<open>9\<close>.
\<close>

definition nonzero_digit :: "char \<Rightarrow> bool" where
  "nonzero_digit c = (c \<in> set ''123456789'')"

definition re_d :: "string \<Rightarrow> (string \<times> string) list" where
  "re_d s =
     (case s of
        [] \<Rightarrow> []
      | [a] \<Rightarrow> (if nonzero_digit a then [([a], [])] else [])
      | a # b # r \<Rightarrow>
          (if a = CHR ''3'' \<and> b \<in> set ''01'' then [([a, b], r)] else []) @
          (if a \<in> set ''12'' \<and> ascii_digit b then [([a, b], r)] else []) @
          (if a = CHR ''0'' \<and> nonzero_digit b then [([a, b], r)] else []) @
          (if nonzero_digit a then [([a], b # r)] else []) @
          (if a = CHR '' '' \<and> nonzero_digit b then [([a, b], r)] else []))"

definition re_m :: "string \<Rightarrow> (string \<times> string) list" where
  "re_m s =
     (case s of
        [] \<Rightarrow> []
      | [a] \<Rightarrow> (if nonzero_digit a then [([a], [])] else [])
      | a # b # r \<Rightarrow>
          (if a = CHR ''1'' \<and> b \<in> set ''012'' then [([a, b], r)] else []) @
          (if a = CHR ''0'' \<and> nonzero_digit b then [([a, b], r)] else []) @
          (if nonzero_digit a then [([a], b # r)] else []))"

definition re_Y :: "string \<Rightarrow> (string \<times> string) list" where
  "re_Y s =
     (case s of
        a # b # c # d # r \<Rightarrow>
          (if ascii_digit a \<and> ascii_digit b \<and> ascii_digit c \<and> ascii_digit d
           then [([a, b, c, d], r)] else [])
      | _ \<Rightarrow> [])"

definition re_dot :: "string \<Rightarrow> string list" where
  "re_dot s = (case s of [] \<Rightarrow> [] | a # r \<Rightarrow> (if a = CHR ''.'' then [r] else []))"

definition day_dot :: "string \<Rightarrow> (string \<times> string) list" where
  "day_dot s = concat (map (\<lambda>(d, r). map (\<lambda>r'. (d, r')) (re_dot r)) (re_d s))"

definition month_dot :: "string \<Rightarrow> (string \<times> string) list" where
  "month_dot s = concat (map (\<lambda>(m, r). map (\<lambda>r'. (m, r')) (re_dot r)) (re_m s))"

definition format_regex :: "string \<Rightarrow> ((string \<times> string \<times> string) \<times> string) list" where
  "format_regex s =
     concat (map (\<lambda>(d, r1).
       concat (map (\<lambda>(m, r2).
         map (\<lambda>(y, r3). ((d, m, y), r3)) (re_Y r2)) (month_dot r1))) (day_dot s))"

definition digit_value :: "char \<Rightarrow> int" where
  "digit_value c = of_char c - 48"

text \<open>\<open>int(s)\<close> on a matched field: blanks around the digits are skipped.\<close>

definition py_int :: "string \<Rightarrow> int" where
  "py_int s = foldl (\<lambda>n c. 10 * n + digit_value c) 0 (filter (\<lambda>c. c \<noteq> CHR '' '') s)"

definition strptime :: "string \<Rightarrow> error + datetime" where
  "strptime data_string =
     (case format_regex data_string of
        [] \<Rightarrow> Inl ValueError
      | ((d, m, y), rest) # _ \<Rightarrow>
          if rest \<noteq> [] then Inl ValueError
          else new_datetime (py_int y) (py_int m) (py_int d))"

text \<open>
  \<open>Birthday.__init__\<close> stores the string when \<open>strptime\<close> returns (a \<open>datetime\<close> is
  always true in a condition) and turns the ValueError of \<open>strptime\<close> into
  DateValidationError.
\<close>

definition Birthday :: "string \<Rightarrow> error + Field" where
  "Birthday v =
     (case strptime v of
        Inr _ \<Rightarrow> Inr (Field v)
      | Inl ValueError \<Rightarrow> Inl (DateValidationError ''Invalid date (try using DD.MM.YYYY format)'')
      | Inl e \<Rightarrow> Inl e)"

section \<open>Record\<close>

record Record =
  name :: Field
  phones :: "Field list"
  birthday :: "Field option"

text \<open>\<open>new_Record\<close> is the constructor \<open>Record(name)\<close>.\<close>

definition new_Record :: "string \<Rightarrow> Record" where
  "new_Record n = \<lparr>name = Name n, phones = [], birthday = None\<rparr>"

fun find_in :: "string \<Rightarrow> Field list \<Rightarrow> Field option" where
  "find_in phone [] = None"
| "find_in phone (ph # phs) = (if phone = value_of ph then Some ph else find_in phone phs)"

definition find_phone :: "string \<Rightarrow> Record \<Rightarrow> Field option" where
  "find_phone phone r = find_in phone (phones r)"

definition add_phone :: "string \<Rightarrow> Record \<Rightarrow> Record outcome" where
  "add_phone phone r =
     (case Phone phone of
        Inl e \<Rightarrow> Raised e r
      | Inr p \<Rightarrow>
          if value_of p \<notin> set (map value_of (phones r))
          then Return (r\<lparr>phones := phones r @ [p]\<rparr>)
          else Return r)"

definition remove_phone :: "string \<Rightarrow> Record \<Rightarrow> Record" where
  "remove_phone phone r = r\<lparr>phones := filter (\<lambda>ph. value_of ph \<noteq> phone) (phones r)\<rparr>"

definition edit_phone :: "string \<Rightarrow> string \<Rightarrow> Record \<Rightarrow> Record outcome" where
  "edit_phone old_phone new_phone r =
     (if find_phone old_phone r \<noteq> None
      then (case add_phone new_phone r of
              Raised e r' \<Rightarrow> Raised e r'
            | Return r' \<Rightarrow> Return (remove_phone old_phone r'))
      else Raised (MissingPhoneError ''Phone number to be edited is missing from the list'') r)"

definition add_birthday :: "string \<Rightarrow> Record \<Rightarrow> Record outcome" where
  "add_birthday b r =
     (case Birthday b of
        Inl e \<Rightarrow> Raised e r
      | Inr v \<Rightarrow> Return (r\<lparr>birthday := Some v\<rparr>))"

section \<open>AddressBook\<close>

text \<open>
  \<open>AddressBook\<close> is a \<open>UserDict\<close>: its \<open>data\<close> is a dictionary from names to records,
  iterated in insertion order. The model is the list of its items in that order.
  Assigning to a key that is present replaces the value where it stands, assigning to a
  new key appends an item: \<open>AList.update\<close>. A record is an object held by the
  dictionary, so a method that mutates it changes the item under its key.
\<close>

type_synonym AddressBook = "(string \<times> Record) list"

text \<open>\<open>find_book\<close> is the method \<open>find\<close>.\<close>

definition add_record :: "Record \<Rightarrow> AddressBook \<Rightarrow> AddressBook" where
  "add_record record book = AList.update (value_of (name record)) record book"

definition find_book :: "string \<Rightarrow> AddressBook \<Rightarrow> Record option" where
  "find_book nm book = (if nm \<in> set (map fst book) then map_of book nm else None)"

definition delete :: "string \<Rightarrow> AddressBook \<Rightarrow> AddressBook" where
  "delete nm book = (if nm \<in> set (map fst book) then AList.delete nm book else book)"

text \<open>\<open>book[name]\<close> and \<open>book.data[name]\<close>: KeyError when the key is missing.\<close>

definition getitem :: "string \<Rightarrow> AddressBook \<Rightarrow> error + Record" where
  "getitem nm book = (case map_of book nm of None \<Rightarrow> Inl KeyError | Some r \<Rightarrow> Inr r)"

subsection \<open>Upcoming birthdays\<close>

definition find_next_weekday :: "datetime \<Rightarrow> int \<Rightarrow> error + datetime" where
  "find_next_weekday start_date wd =
     (let days_ahead = wd - weekday start_date;
          days_ahead = (if days_ahead \<le> 0 then days_ahead + 7 else days_ahead)
      in add_days start_date days_ahead)"

definition adjust_for_weekend :: "datetime \<Rightarrow> error + datetime" where
  "adjust_for_weekend bd = (if weekday bd \<ge> 5 then find_next_weekday bd 0 else Inr bd)"

text \<open>
  An item of the result: the dictionary with the keys \<open>name\<close> (here \<open>contact\<close>) and
  \<open>congratulation_date\<close>.
\<close>

record congratulation =
  contact :: string
  congratulation_date :: string

text \<open>
  The body of the loop for one item of the dictionary: nothing to append, an item to
  append, or the exception that ends the call. The loop runs over the keys and reads
  the record of each key; the keys of a dictionary are distinct, so it runs over the items.
\<close>

definition upcoming_of :: "datetime \<Rightarrow> string \<Rightarrow> Record \<Rightarrow> error + congratulation option" where
  "upcoming_of today nm r =
     (case birthday r of
        None \<Rightarrow> Inr None
      | Some b \<Rightarrow>
          (case strptime (value_of b) of
             Inl e \<Rightarrow> Inl e
           | Inr bd \<Rightarrow>
               (case replace_year bd (year today) of
                  Inl e \<Rightarrow> Inl e
                | Inr this_year \<Rightarrow>
                    (case (if toordinal this_year < toordinal today
                           then replace_year bd (year today + 1) else Inr this_year) of
                       Inl e \<Rightarrow> Inl e
                     | Inr birthday_this_year \<Rightarrow>
                         if 0 \<le> toordinal birthday_this_year - toordinal today \<and>
                            toordinal birthday_this_year - toordinal today \<le> 7
                         then (case adjust_for_weekend birthday_this_year of
                                 Inl e \<Rightarrow> Inl e
                               | Inr adjusted \<Rightarrow>
                                   Inr (Some \<lparr>contact = nm,
                                              congratulation_date = date_to_string adjusted\<rparr>))
                         else Inr None))))"

fun upcoming_loop ::
  "datetime \<Rightarrow> AddressBook \<Rightarrow> congratulation list \<Rightarrow> error + congratulation list" where
  "upcoming_loop today [] upcoming_birthdays = Inr upcoming_birthdays"
| "upcoming_loop today ((nm, r) # rest) upcoming_birthdays =
     (case upcoming_of today nm r of
        Inl e \<Rightarrow> Inl e
      | Inr None \<Rightarrow> upcoming_loop today rest upcoming_birthdays
      | Inr (Some c) \<Rightarrow> upcoming_loop today rest (upcoming_birthdays @ [c]))"

text \<open>\<open>today\<close> is what \<open>datetime.today()\<close> returns when the method is called.\<close>

definition get_upcoming_birthdays :: "datetime \<Rightarrow> AddressBook \<Rightarrow> error + congratulation list" where
  "get_upcoming_birthdays today book = upcoming_loop today book []"

section \<open>Command handlers\<close>

definition RED :: string where "RED = CHR 0x1B # ''[31m''"
definition GREEN :: string where "GREEN = CHR 0x1B # ''[32m''"

text \<open>
  A handler returns its reply, or the exception that leaves it, together with the book
  as the call leaves it. The decorator \<open>input_error\<close> turns the exceptions it catches
  into replies; any other exception passes through. The handlers modelled are those
  that change the book: \<open>add_contact\<close>, \<open>change_contact\<close> and \<open>add_birthday\<close> (here
  \<open>add_birthday_cmd\<close>, the method of the record having the name). \<open>RED\<close> and \<open>GREEN\<close>
  are the escape sequences \<open>Fore.RED\<close> and \<open>Fore.GREEN\<close>.
\<close>

type_synonym reply = "(error + string) \<times> AddressBook"

definition input_error :: "reply \<Rightarrow> reply" where
  "input_error res =
     (case res of
        (Inr s, book) \<Rightarrow> (Inr s, book)
      | (Inl ValueError, book) \<Rightarrow>
          (Inr (RED @ CHR 0x0A # ''Invalid command format (name/phone missing)''), book)
      | (Inl IndexError, book) \<Rightarrow>
          (Inr (RED @ CHR 0x0A # ''Enter argument for the command please''), book)
      | (Inl KeyError, book) \<Rightarrow> (Inr (RED @ CHR 0x0A # ''Contact doesn't exist''), book)
      | (Inl AttributeError, book) \<Rightarrow> (Inr (RED @ CHR 0x0A # ''Contact doesn't exist''), book)
      | (Inl (PhoneValidationError e), book) \<Rightarrow> (Inr (RED @ CHR 0x0A # e), book)
      | (Inl (MissingPhoneError e), book) \<Rightarrow> (Inr (RED @ CHR 0x0A # e), book)
      | (Inl (DateValidationError e), book) \<Rightarrow> (Inr (RED @ CHR 0x0A # e), book)
      | (Inl e, book) \<Rightarrow> (Inl e, book))"

definition add_contact :: "string list \<Rightarrow> AddressBook \<Rightarrow> reply" where
  "add_contact args book = input_error
     (case args of
        nm # phone # _ \<Rightarrow>
          (case find_book nm book of
             Some r \<Rightarrow>
               (case add_phone phone r of
                  Raised e r' \<Rightarrow> (Inl e, AList.update nm r' book)
                | Return r' \<Rightarrow>
                    (Inr (GREEN @ CHR 0x0A # ''Contact/phone added: '' @ nm @ '' '' @ phone),
                     AList.update nm r' book))
           | None \<Rightarrow>
               (case add_phone phone (new_Record nm) of
                  Raised e r' \<Rightarrow> (Inl e, book)
                | Return r' \<Rightarrow>
                    (Inr (GREEN @ CHR 0x0A # ''Contact/phone added: '' @ nm @ '' '' @ phone),
                     add_record r' book)))
      | _ \<Rightarrow> (Inl ValueError, book))"

definition change_contact :: "string list \<Rightarrow> AddressBook \<Rightarrow> reply" where
  "change_contact args book = input_error
     (case args of
        nm # old_phone # new_phone # _ \<Rightarrow>
          (case find_book nm book of
             None \<Rightarrow> (Inl AttributeError, book)
           | Some r \<Rightarrow>
               (case edit_phone old_phone new_phone r of
                  Raised e r' \<Rightarrow> (Inl e, AList.update nm r' book)
                | Return r' \<Rightarrow>
                    (Inr (GREEN @ CHR 0x0A # nm @ '': phone '' @ old_phone @ '' changed to ''
                          @ new_phone),
                     AList.update nm r' book)))
      | _ \<Rightarrow> (Inl ValueError, book))"

definition add_birthday_cmd :: "string list \<Rightarrow> AddressBook \<Rightarrow> reply" where
  "add_birthday_cmd args book = input_error
     (case args of
        nm # bday # _ \<Rightarrow>
          (case getitem nm book of
             Inl e \<Rightarrow> (Inl e, book)
           | Inr r \<Rightarrow>
               (case add_birthday bday r of
                  Raised e r' \<Rightarrow> (Inl e, AList.update nm r' book)
                | Return r' \<Rightarrow>
                    (Inr (GREEN @ CHR 0x0A # ''Birthday added: '' @ nm @ '' '' @ bday),
                     AList.update nm r' book)))
      | _ \<Rightarrow> (Inl ValueError, book))"

section \<open>Vocabulary of the specification\<close>

text \<open>The number of entries of a record's phone list that hold the value \<open>v\<close>.\<close>

definition count_phone :: "string \<Rightarrow> Record \<Rightarrow> nat" where
  "count_phone v r = length (filter (\<lambda>ph. value_of ph = v) (phones r))"

text \<open>The invariant of the directory: every key is the name of the record it maps to.\<close>

definition key_inv :: "AddressBook \<Rightarrow> bool" where
  "key_inv book = list_all (\<lambda>(k, r). k = value_of (name r)) book"

text \<open>A contact with a phone and a birthday, and a book that holds it and another one.\<close>

definition ann :: Record where
  "ann = \<lparr>name = Name ''Ann'', phones = [Field ''0501112233''],
          birthday = Some (Field ''15.06.1990'')\<rparr>"

definition bob :: Record where
  "bob = \<lparr>name = Name ''Bob'', phones = [], birthday = None\<rparr>"

definition ann_bob :: AddressBook where
  "ann_bob = [(''Ann'', ann), (''Bob'', bob)]"

text \<open>
  More contacts: with today the 10th of June 2024, a Monday, the birthday of Cid is 10 days
  away and the birthday of Dan is today. Eve was born on a 29th of February.
\<close>

definition cid :: Record where
  "cid = \<lparr>name = Name ''Cid'', phones = [], birthday = Some (Field ''20.06.1990'')\<rparr>"

definition dan :: Record where
  "dan = \<lparr>name = Name ''Dan'', phones = [], birthday = Some (Field ''10.06.1990'')\<rparr>"

definition eve :: Record where
  "eve = \<lparr>name = Name ''Eve'', phones = [], birthday = Some (Field ''29.02.2024'')\<rparr>"

definition contacts :: AddressBook where
  "contacts = [(''Ann'', ann), (''Bob'', bob), (''Cid'', cid), (''Dan'', dan)]"

text \<open>The format DD.MM.YYYY: two digits, a dot, two digits, a dot, four digits.\<close>

definition dd_mm_yyyy :: "string \<Rightarrow> bool" where
  "dd_mm_yyyy v =
     (length v = 10 \<and> list_all ascii_digit (take 2 v) \<and> v ! 2 = CHR ''.'' \<and>
      list_all ascii_digit (take 2 (drop 3 v)) \<and> v ! 5 = CHR ''.'' \<and>
      list_all ascii_digit (drop 6 v))"

subsection \<open>Spellings of a date\<close>

text \<open>
  The fields of a string in the format DD.MM.YYYY, and whether they are a date of the
  calendar: a month from 1 to 12 and a day that this month has in this year.
\<close>

definition day_field :: "string \<Rightarrow> int" where
  "day_field v = py_int (take 2 v)"

definition month_field :: "string \<Rightarrow> int" where
  "month_field v = py_int (take 2 (drop 3 v))"

definition year_field :: "string \<Rightarrow> int" where
  "year_field v = py_int (drop 6 v)"

definition real_calendar_date :: "string \<Rightarrow> bool" where
  "real_calendar_date v =
     (1 \<le> month_field v \<and> month_field v \<le> 12 \<and>
      1 \<le> day_field v \<and> day_field v \<le> days_in_month (year_field v) (month_field v))"

text \<open>
  The zero-padded spelling of a date written with a one-digit day or month: a digit that
  stands alone before the dot gets a zero in front, and so does a day written with a
  blank in place of the zero.
\<close>

definition restore_day :: "string \<Rightarrow> string" where
  "restore_day v =
     (case v of
        a # b # r \<Rightarrow>
          if b = CHR ''.'' then CHR ''0'' # a # b # r
          else if a = CHR '' '' then CHR ''0'' # b # r
          else v
      | _ \<Rightarrow> v)"

definition restore_month :: "string \<Rightarrow> string" where
  "restore_month v =
     (case v of
        a # b # r \<Rightarrow> if b = CHR ''.'' then CHR ''0'' # a # b # r else v
      | _ \<Rightarrow> v)"

definition restore_zeros :: "string \<Rightarrow> string" where
  "restore_zeros v = (let p = restore_day v in take 3 p @ restore_month (drop 3 p))"

text \<open>The text that the day group and the month group of the expression match.\<close>

definition day_token :: "string \<Rightarrow> string" where
  "day_token v = (case v of a # b # r \<Rightarrow> if b = CHR ''.'' then [a] else [a, b] | _ \<Rightarrow> v)"

definition month_token :: "string \<Rightarrow> string" where
  "month_token v = (case v of a # b # r \<Rightarrow> if b = CHR ''.'' then [a] else [a, b] | _ \<Rightarrow> v)"

subsection \<open>Occurrences of a birthday\<close>

text \<open>A date that the constructor of \<open>datetime\<close> accepts.\<close>

definition valid_datetime :: "datetime \<Rightarrow> bool" where
  "valid_datetime dt = check_date_fields (year dt) (month dt) (day dt)"

text \<open>
  \<open>c\<close> is the next Monday strictly after \<open>occ\<close>: a Monday later than \<open>occ\<close> and at most
  7 days later, so that no Monday lies between the two.
\<close>

definition next_monday_after :: "datetime \<Rightarrow> datetime \<Rightarrow> bool" where
  "next_monday_after occ c =
     (weekday c = 0 \<and> toordinal occ < toordinal c \<and> toordinal c \<le> toordinal occ + 7)"

text \<open>
  The occurrence of a birthday in the year \<open>y\<close>: the date of that year with the month
  and the day of the birthday, when that year has such a date.
\<close>

definition occurrence :: "int \<Rightarrow> datetime \<Rightarrow> datetime option" where
  "occurrence y bd =
     (if check_date_fields y (month bd) (day bd)
      then Some \<lparr>year = y, month = month bd, day = day bd\<rparr> else None)"

text \<open>
  The next occurrence: this year's, or next year's if this year's is strictly before
  today.
\<close>

definition next_occurrence :: "datetime \<Rightarrow> datetime \<Rightarrow> datetime option" where
  "next_occurrence today bd =
     (case occurrence (year today) bd of
        None \<Rightarrow> None
      | Some this_year \<Rightarrow>
          if toordinal this_year < toordinal today then occurrence (year today + 1) bd
          else Some this_year)"

text \<open>The inclusive window of today and the 7 days after it.\<close>

definition in_window :: "datetime \<Rightarrow> datetime \<Rightarrow> bool" where
  "in_window today occ = (toordinal today \<le> toordinal occ \<and> toordinal occ \<le> toordinal today + 7)"

text \<open>A record without a birthday, or one whose stored birthday parses and has a next occurrence.\<close>

definition well_dated :: "datetime \<Rightarrow> Record \<Rightarrow> bool" where
  "well_dated today r =
     (case birthday r of
        None \<Rightarrow> True
      | Some b \<Rightarrow>
          (case strptime (value_of b) of
             Inl e \<Rightarrow> False
           | Inr bd \<Rightarrow> next_occurrence today bd \<noteq> None))"

text \<open>A record with a birthday whose next occurrence lies in the window.\<close>

definition qualifies :: "datetime \<Rightarrow> Record \<Rightarrow> bool" where
  "qualifies today r =
     (case birthday r of
        None \<Rightarrow> False
      | Some b \<Rightarrow>
          (case strptime (value_of b) of
             Inl e \<Rightarrow> False
           | Inr bd \<Rightarrow>
               (case next_occurrence today bd of
                  None \<Rightarrow> False
                | Some occ \<Rightarrow> in_window today occ)))"

text \<open>
  What an item of the result says of the record it comes from: the next occurrence of the
  birthday lies in the window, and the congratulation date is the text, and reads back
  as the date, of that occurrence or of the next Monday after it.
\<close>

definition congratulates :: "datetime \<Rightarrow> Record \<Rightarrow> congratulation \<Rightarrow> bool" where
  "congratulates today r c =
     (case birthday r of
        None \<Rightarrow> False
      | Some b \<Rightarrow>
          (case strptime (value_of b) of
             Inl e \<Rightarrow> False
           | Inr bd \<Rightarrow>
               (case next_occurrence today bd of
                  None \<Rightarrow> False
                | Some occ \<Rightarrow>
                    in_window today occ \<and>
                    (\<exists>adj. valid_datetime adj \<and> congratulation_date c = date_to_string adj \<and>
                       strptime (congratulation_date c) = Inr adj \<and>
                       (if 5 \<le> weekday occ then next_monday_after occ adj else adj = occ)))))"

section \<open>Properties of the fields\<close>

lemma find_in_None: "find_in phone phs = None \<longleftrightarrow> phone \<notin> set (map value_of phs)"
  by (induction phs) auto

lemma Phone_Inr: "Phone v = Inr p \<Longrightarrow> p = Field v"
  by (auto simp: Phone_def split: if_splits)

text \<open>
  Claim C2, as amended. \<open>Phone v\<close> succeeds exactly when \<open>v\<close> has 10 characters and
  \<open>v.isdigit()\<close> holds, and then stores \<open>v\<close>; every other string raises
  PhoneValidationError. Every string of ten characters \<open>0\<close> to \<open>9\<close> is accepted.
\<close>

theorem Phone_isdigit:
  "(Phone v = Inr (Field v) \<longleftrightarrow> length v = 10 \<and> isdigit v) \<and>
   (\<not> (length v = 10 \<and> isdigit v) \<longrightarrow> (\<exists>msg. Phone v = Inl (PhoneValidationError msg))) \<and>
   (length v = 10 \<and> list_all ascii_digit v \<longrightarrow> Phone v = Inr (Field v))"
  by (auto simp: Phone_def isdigit_def char_isdigit_def list_all_iff)

theorem Phone_isdigit_witness:
  "Phone ''0123456789'' = Inr (Field ''0123456789'') \<and>
   (\<exists>msg. Phone ''12345'' = Inl (PhoneValidationError msg)) \<and>
   (\<exists>msg. Phone ''12345abcde'' = Inl (PhoneValidationError msg))"
  using Phone_isdigit [of "''0123456789''"] Phone_isdigit [of "''12345''"]
    Phone_isdigit [of "''12345abcde''"]
  by (simp add: isdigit_def char_isdigit_def ascii_digit_def)

text \<open>
  Claim C2 as stated fails: the string of ten superscript twos (U+00B2) has 10
  characters, none of them a decimal digit, and \<open>Phone\<close> accepts it.
\<close>

theorem Phone_superscript_counterexample:
  "Phone [CHR 0xB2, CHR 0xB2, CHR 0xB2, CHR 0xB2, CHR 0xB2, CHR 0xB2, CHR 0xB2, CHR 0xB2, CHR 0xB2, CHR 0xB2]
     = Inr (Field [CHR 0xB2, CHR 0xB2, CHR 0xB2, CHR 0xB2, CHR 0xB2, CHR 0xB2, CHR 0xB2, CHR 0xB2, CHR 0xB2, CHR 0xB2]) \<and>
   \<not> list_all ascii_digit [CHR 0xB2, CHR 0xB2, CHR 0xB2, CHR 0xB2, CHR 0xB2, CHR 0xB2, CHR 0xB2, CHR 0xB2, CHR 0xB2, CHR 0xB2]"
  by (simp add: Phone_def isdigit_def char_isdigit_def ascii_digit_def)

section \<open>Properties of the record\<close>

lemma find_phone_None: "find_phone phone r = None \<longleftrightarrow> phone \<notin> set (map value_of (phones r))"
  by (simp add: find_phone_def find_in_None)

text \<open>
  Claim C6. \<open>edit_phone old_phone new_phone\<close> on a record none of whose phones has the
  value \<open>old_phone\<close> raises MissingPhoneError, and the record is then what it was before
  the call: name, phone list and birthday.
\<close>

theorem edit_phone_missing:
  "old_phone \<notin> set (map value_of (phones r)) \<Longrightarrow>
   \<exists>msg. edit_phone old_phone new_phone r = Raised (MissingPhoneError msg) r"
  by (simp add: edit_phone_def find_phone_None)

theorem edit_phone_missing_witness:
  "''0000000000'' \<notin> set (map value_of (phones ann)) \<and>
   (\<exists>msg. edit_phone ''0000000000'' ''1111111111'' ann = Raised (MissingPhoneError msg) ann)"
  using edit_phone_missing [of "''0000000000''" ann "''1111111111''"]
  by (simp add: ann_def)

lemma count_phone_distinct:
  "distinct (map value_of phs) \<Longrightarrow> v \<in> set (map value_of phs) \<Longrightarrow>
   length (filter (\<lambda>ph. value_of ph = v) phs) = 1"
proof (induction phs)
  case Nil
  then show ?case by simp
next
  case (Cons a phs)
  show ?case
  proof (cases "value_of a = v")
    case True
    with Cons.prems have "v \<notin> set (map value_of phs)" by simp
    then have "filter (\<lambda>ph. value_of ph = v) phs = []"
      by (auto simp: filter_empty_conv)
    with True show ?thesis by simp
  next
    case False
    with Cons show ?thesis by simp
  qed
qed

text \<open>
  Claim C7. For a valid phone string \<open>v\<close>, \<open>add_phone v\<close> returns, and a second
  \<open>add_phone v\<close> changes nothing. The record then holds \<open>v\<close>, and holds it exactly once
  when its phone list had no duplicates before, as every list built by the methods of
  the record has.
\<close>

theorem add_phone_idempotent:
  assumes "Phone v = Inr p"
  shows "\<exists>r1. add_phone v r = Return r1 \<and> add_phone v r1 = Return r1 \<and>
           v \<in> set (map value_of (phones r1)) \<and>
           (distinct (map value_of (phones r)) \<longrightarrow>
              distinct (map value_of (phones r1)) \<and> count_phone v r1 = 1)"
proof -
  from assms have p: "p = Field v" by (rule Phone_Inr)
  show ?thesis
  proof (cases "v \<in> set (map value_of (phones r))")
    case True
    with assms p show ?thesis
      by (auto simp: add_phone_def count_phone_def count_phone_distinct)
  next
    case False
    with assms p show ?thesis
      by (auto simp: add_phone_def count_phone_def filter_empty_conv)
  qed
qed

theorem add_phone_idempotent_witness:
  "Phone ''0123456789'' = Inr (Field ''0123456789'') \<and>
   distinct (map value_of (phones ann)) \<and>
   (\<exists>r1. add_phone ''0123456789'' ann = Return r1 \<and>
      add_phone ''0123456789'' r1 = Return r1 \<and> count_phone ''0123456789'' r1 = 1)"
proof -
  have h: "Phone ''0123456789'' = Inr (Field ''0123456789'')"
    by (simp add: Phone_def isdigit_def char_isdigit_def ascii_digit_def)
  have d: "distinct (map value_of (phones ann))"
    by (simp add: ann_def)
  from add_phone_idempotent [OF h, of ann] h d show ?thesis
    by auto
qed

lemma add_phone_name: "name (state_of (add_phone phone r)) = name r"
  by (simp add: add_phone_def split: sum.splits)

lemma add_phone_birthday: "birthday (state_of (add_phone phone r)) = birthday r"
  by (simp add: add_phone_def split: sum.splits)

lemma edit_phone_name: "name (state_of (edit_phone old new r)) = name r"
  using add_phone_name [of new r]
  by (auto simp: edit_phone_def remove_phone_def split: outcome.splits)

lemma add_birthday_name: "name (state_of (add_birthday b r)) = name r"
  by (simp add: add_birthday_def split: sum.splits)

section \<open>Properties of the directory and of the handlers\<close>

lemma set_update_subset: "set (AList.update k v al) \<subseteq> insert (k, v) (set al)"
  by (induction al) auto

lemma key_inv_update:
  "key_inv book \<Longrightarrow> k = value_of (name r) \<Longrightarrow> key_inv (AList.update k r book)"
  using set_update_subset [of k r book] by (auto simp: key_inv_def list_all_iff)

lemma key_inv_delete: "key_inv book \<Longrightarrow> key_inv (AList.delete k book)"
  by (auto simp: key_inv_def list_all_iff AList.delete_eq)

lemma find_book_Some: "find_book nm book = Some r \<Longrightarrow> map_of book nm = Some r"
  by (simp add: find_book_def split: if_splits)

lemma key_inv_lookup: "key_inv book \<Longrightarrow> map_of book nm = Some r \<Longrightarrow> nm = value_of (name r)"
  by (auto simp: key_inv_def list_all_iff dest: map_of_SomeD)

lemma input_error_book: "snd (input_error res) = snd res"
  by (cases res) (auto simp: input_error_def split: sum.splits error.splits)

text \<open>The book that each handler leaves behind, whatever it replies.\<close>

lemma add_contact_book:
  "snd (add_contact args book) =
     (case args of
        nm # phone # _ \<Rightarrow>
          (case find_book nm book of
             Some r \<Rightarrow> AList.update nm (state_of (add_phone phone r)) book
           | None \<Rightarrow>
               (case add_phone phone (new_Record nm) of
                  Raised e r' \<Rightarrow> book
                | Return r' \<Rightarrow> add_record r' book))
      | _ \<Rightarrow> book)"
  by (simp add: add_contact_def input_error_book split: list.splits option.splits outcome.splits)

lemma change_contact_book:
  "snd (change_contact args book) =
     (case args of
        nm # old_phone # new_phone # _ \<Rightarrow>
          (case find_book nm book of
             None \<Rightarrow> book
           | Some r \<Rightarrow> AList.update nm (state_of (edit_phone old_phone new_phone r)) book)
      | _ \<Rightarrow> book)"
  by (simp add: change_contact_def input_error_book split: list.splits option.splits outcome.splits)

lemma add_birthday_cmd_book:
  "snd (add_birthday_cmd args book) =
     (case args of
        nm # bday # _ \<Rightarrow>
          (case map_of book nm of
             None \<Rightarrow> book
           | Some r \<Rightarrow> AList.update nm (state_of (add_birthday bday r)) book)
      | _ \<Rightarrow> book)"
  by (simp add: add_birthday_cmd_def input_error_book getitem_def
      split: list.splits option.splits outcome.splits)

lemma key_inv_add_contact: "key_inv book \<Longrightarrow> key_inv (snd (add_contact args book))"
  by (auto simp: add_contact_book add_record_def add_phone_name
      split: list.splits option.splits outcome.splits
      intro!: key_inv_update dest!: find_book_Some dest: key_inv_lookup)

lemma key_inv_change_contact: "key_inv book \<Longrightarrow> key_inv (snd (change_contact args book))"
  by (auto simp: change_contact_book edit_phone_name
      split: list.splits option.splits
      intro!: key_inv_update dest!: find_book_Some dest: key_inv_lookup)

lemma key_inv_add_birthday_cmd: "key_inv book \<Longrightarrow> key_inv (snd (add_birthday_cmd args book))"
  by (auto simp: add_birthday_cmd_book add_birthday_name
      split: list.splits option.splits
      intro!: key_inv_update dest: key_inv_lookup)

lemma ann_bob_find: "find_book ''Ann'' ann_bob = Some ann"
  by (simp add: find_book_def ann_bob_def)

lemma ann_bob_inv: "key_inv ann_bob"
  by (simp add: key_inv_def ann_bob_def ann_def bob_def Name_def)

text \<open>
  Claim C8. The handler of \<open>add\<close>, called with a name that the book holds, leaves the
  keys of the book as they were, in number and in order, and leaves every other record
  untouched. The record of that name keeps its name and its birthday; its phone list is
  the old one, or the old one followed by the new phone, and holds the new phone
  whenever that phone is valid.
\<close>

theorem add_contact_existing:
  assumes "find_book nm book = Some r"
  shows "\<exists>r'. snd (add_contact (nm # phone # rest) book) = AList.update nm r' book \<and>
           map fst (snd (add_contact (nm # phone # rest) book)) = map fst book \<and>
           find_book nm (snd (add_contact (nm # phone # rest) book)) = Some r' \<and>
           (\<forall>k. k \<noteq> nm \<longrightarrow>
              find_book k (snd (add_contact (nm # phone # rest) book)) = find_book k book) \<and>
           name r' = name r \<and> birthday r' = birthday r \<and>
           (phones r' = phones r \<or> phones r' = phones r @ [Field phone]) \<and>
           (\<forall>p. Phone phone = Inr p \<longrightarrow> phone \<in> set (map value_of (phones r')))"
proof -
  let ?r = "state_of (add_phone phone r)"
  let ?b = "snd (add_contact (nm # phone # rest) book)"
  from assms have b: "?b = AList.update nm ?r book"
    by (simp add: add_contact_book)
  from assms have k: "nm \<in> set (map fst book)"
    by (simp add: find_book_def split: if_splits)
  then have keys: "map fst ?b = map fst book"
    by (simp add: b update_keys)
  have f: "find_book nm ?b = Some ?r"
    using k by (simp add: find_book_def keys) (simp add: b update_conv')
  have o: "\<forall>k. k \<noteq> nm \<longrightarrow> find_book k ?b = find_book k book"
    by (simp add: find_book_def keys) (simp add: b update_conv')
  have ph: "phones ?r = phones r \<or> phones ?r = phones r @ [Field phone]"
    by (auto simp: add_phone_def split: sum.splits dest: Phone_Inr)
  have v: "\<forall>p. Phone phone = Inr p \<longrightarrow> phone \<in> set (map value_of (phones ?r))"
    by (auto simp: add_phone_def dest: Phone_Inr)
  from b keys f o ph v show ?thesis
    by (intro exI [of _ ?r]) (simp add: add_phone_name add_phone_birthday)
qed

theorem add_contact_existing_witness:
  "find_book ''Ann'' ann_bob = Some ann \<and>
   Phone ''0123456789'' = Inr (Field ''0123456789'') \<and>
   (\<exists>r'. snd (add_contact [''Ann'', ''0123456789''] ann_bob) = AList.update ''Ann'' r' ann_bob \<and>
      map fst (snd (add_contact [''Ann'', ''0123456789''] ann_bob)) = [''Ann'', ''Bob''] \<and>
      birthday r' = Some (Field ''15.06.1990'') \<and>
      phones r' = [Field ''0501112233'', Field ''0123456789''])"
proof -
  have h: "Phone ''0123456789'' = Inr (Field ''0123456789'')"
    by (simp add: Phone_def isdigit_def char_isdigit_def ascii_digit_def)
  from add_contact_existing [OF ann_bob_find, of "''0123456789''" "[]"] h ann_bob_find
  show ?thesis
    by (auto simp: ann_bob_def ann_def)
qed

text \<open>
  Claim C9. \<open>add_record\<close>, \<open>delete\<close> and the handlers that change records (\<open>add\<close>,
  \<open>change\<close> and \<open>add-birthday\<close>, whatever their arguments and whether they reply or
  report an error) keep the invariant that every key of the book is the name of the
  record it maps to.
\<close>

theorem key_inv_preserved:
  assumes "key_inv book"
  shows "key_inv (add_record record book) \<and> key_inv (delete nm book) \<and>
         key_inv (snd (add_contact args book)) \<and>
         key_inv (snd (change_contact args book)) \<and>
         key_inv (snd (add_birthday_cmd args book))"
  using assms
  by (simp add: key_inv_add_contact key_inv_change_contact key_inv_add_birthday_cmd
      add_record_def delete_def key_inv_update key_inv_delete)

theorem key_inv_preserved_witness:
  "key_inv ann_bob \<and>
   key_inv (add_record (new_Record ''Cid'') ann_bob) \<and> key_inv (delete ''Bob'' ann_bob) \<and>
   key_inv (snd (add_contact [''Cid'', ''0123456789''] ann_bob)) \<and>
   key_inv (snd (change_contact [''Ann'', ''0501112233'', ''0123456789''] ann_bob)) \<and>
   key_inv (snd (add_birthday_cmd [''Bob'', ''29.02.2024''] ann_bob))"
  using key_inv_preserved [OF ann_bob_inv] ann_bob_inv
  by simp

section \<open>Properties of dates\<close>

lemma div_step:
  fixes y k :: int
  assumes "0 < k"
  shows "y div k = (y - 1) div k + (if y mod k = 0 then 1 else 0)"
proof (cases "y mod k = 0")
  case True
  then obtain q where q: "y = k * q" by (auto simp: mod_eq_0_iff_dvd)
  have "y - 1 = (q - 1) * k + (k - 1)" using q by (simp add: algebra_simps)
  then have "(y - 1) div k = (q - 1) + (k - 1) div k"
    using assms by (metis div_mult_self3 not_less_iff_gr_or_eq add.commute)
  moreover have "(k - 1) div k = 0" using assms by simp
  moreover have "y div k = q" using q assms by simp
  ultimately show ?thesis using True by simp
next
  case False
  define r where "r = y mod k"
  define q where "q = y div k"
  have y: "y = q * k + r" by (simp add: q_def r_def)
  have "0 \<le> r" "r < k" using assms by (simp_all add: r_def)
  with False have r: "0 < r" "r < k" by (simp_all add: r_def)
  have "y - 1 = q * k + (r - 1)" using y by simp
  then have "(y - 1) div k = q + (r - 1) div k"
    using assms by (metis div_mult_self3 not_less_iff_gr_or_eq add.commute)
  moreover have "(r - 1) div k = 0" using r by simp
  ultimately show ?thesis using False by (simp add: q_def)
qed

lemma days_before_year_Suc:
  "days_before_year (y + 1) = days_before_year y + (if is_leap y then 366 else 365)"
proof -
  define a4 a100 a400 where "a4 = (y - 1) div 4" and "a100 = (y - 1) div 100"
    and "a400 = (y - 1) div 400"
  define b4 b100 b400 where "b4 = y div 4" and "b100 = y div 100" and "b400 = y div 400"
  have s: "b4 = a4 + (if y mod 4 = 0 then 1 else 0)"
          "b100 = a100 + (if y mod 100 = 0 then 1 else 0)"
          "b400 = a400 + (if y mod 400 = 0 then 1 else 0)"
    unfolding a4_def a100_def a400_def b4_def b100_def b400_def
    by (rule div_step, simp)+
  have d1: "y mod 100 = 0 \<Longrightarrow> y mod 4 = 0"
    using dvd_trans [of 4 100 y] by (simp add: mod_eq_0_iff_dvd)
  have d2: "y mod 400 = 0 \<Longrightarrow> y mod 100 = 0"
    using dvd_trans [of 100 400 y] by (simp add: mod_eq_0_iff_dvd)
  have L: "days_before_year (y + 1) = y * 365 + b4 - b100 + b400"
    by (simp add: days_before_year_def b4_def b100_def b400_def)
  have R: "days_before_year y = (y - 1) * 365 + a4 - a100 + a400"
    by (simp add: days_before_year_def a4_def a100_def a400_def Let_def)
  show ?thesis
  proof (cases "y mod 4 = 0")
    case False
    with d1 d2 have "y mod 100 \<noteq> 0" "y mod 400 \<noteq> 0" by auto
    with False s show ?thesis unfolding L R is_leap_def by simp
  next
    case True
    show ?thesis
    proof (cases "y mod 100 = 0")
      case False
      with d2 have "y mod 400 \<noteq> 0" by auto
      with True False s show ?thesis unfolding L R is_leap_def by simp
    next
      case h: True
      with True s show ?thesis unfolding L R is_leap_def by simp
    qed
  qed
qed

lemma days_before_year_mono_nat: "days_before_year y \<le> days_before_year (y + int k)"
proof (induction k)
  case 0
  then show ?case by simp
next
  case (Suc k)
  have "days_before_year (y + int k) \<le> days_before_year (y + int k + 1)"
    by (simp only: days_before_year_Suc split: if_split) simp
  moreover have "y + int (Suc k) = y + int k + 1" by simp
  ultimately show ?case using Suc by (simp only:)
qed

lemma days_before_year_mono: "y \<le> z \<Longrightarrow> days_before_year y \<le> days_before_year z"
  using days_before_year_mono_nat [of y "nat (z - y)"] by simp

lemma month_cases:
  "1 \<le> m \<Longrightarrow> m \<le> (12::int) \<Longrightarrow>
   m = 1 \<or> m = 2 \<or> m = 3 \<or> m = 4 \<or> m = 5 \<or> m = 6 \<or> m = 7 \<or> m = 8 \<or> m = 9 \<or> m = 10 \<or> m = 11 \<or> m = 12"
  by arith

lemma days_before_year_1: "days_before_year 1 = 0"
  by (simp add: days_before_year_def)

lemma days_before_year_10000: "days_before_year 10000 = 3652059"
  by (simp add: days_before_year_def)

lemma day_of_year_bounds:
  assumes "1 \<le> m" "m \<le> 12" "1 \<le> d" "d \<le> days_in_month y m"
  shows "1 \<le> days_before_month y m + d \<and>
         days_before_month y m + d \<le> (if is_leap y then 366 else 365)"
  using month_cases [OF assms(1,2)] assms(3,4)
  by (elim disjE; simp add: days_before_month_def days_in_month_def DAYS_BEFORE_MONTH_def
        DAYS_IN_MONTH_def split: if_splits)

lemma ymd2ord_bounds:
  assumes "check_date_fields y m d"
  shows "1 \<le> ymd2ord y m d" and "ymd2ord y m d \<le> MAXORDINAL"
proof -
  from assms have y: "1 \<le> y" "y \<le> 9999" and md: "1 \<le> m" "m \<le> 12" "1 \<le> d" "d \<le> days_in_month y m"
    by (simp_all add: check_date_fields_def MINYEAR_def MAXYEAR_def)
  note b = day_of_year_bounds [OF md]
  from y(1) have "0 \<le> days_before_year y"
    using days_before_year_mono [of 1 y] by (simp add: days_before_year_1)
  with b show "1 \<le> ymd2ord y m d" by (simp add: ymd2ord_def)
  from y(2) have "days_before_year (y + 1) \<le> 3652059"
    using days_before_year_mono [of "y + 1" 10000] by (simp add: days_before_year_10000)
  then have "days_before_year y + (if is_leap y then 366 else 365) \<le> 3652059"
    by (simp only: days_before_year_Suc)
  with b show "ymd2ord y m d \<le> MAXORDINAL"
    by (simp add: ymd2ord_def MAXORDINAL_def split: if_splits)
qed

lemma month_estimate_bounds:
  "0 \<le> n \<Longrightarrow> n < (366::int) \<Longrightarrow> 1 \<le> (n + 50) div 32 \<and> (n + 50) div 32 \<le> 12"
  by arith

lemma month_estimate_range:
  "(n + 50) div 32 = (k::int) \<Longrightarrow> 32 * k - 50 \<le> n \<and> n \<le> 32 * k - 19"
  by arith

lemma month_part:
  fixes n :: int
  assumes n: "0 \<le> n" "n < (if leap then 366 else 365)"
  defines "m \<equiv> (n + 50) div 32"
  defines "preceding \<equiv> DAYS_BEFORE_MONTH ! nat m + (if m > 2 \<and> leap then 1 else 0)"
  defines "mm \<equiv> (if preceding > n then m - 1 else m)"
  defines "dd \<equiv> (if preceding > n
                 then n - (preceding - (DAYS_IN_MONTH ! nat (m - 1)
                                        + (if m - 1 = 2 \<and> leap then 1 else 0))) + 1
                 else n - preceding + 1)"
  shows "1 \<le> mm \<and> mm \<le> 12 \<and> 1 \<le> dd \<and>
         dd \<le> (if mm = 2 \<and> leap then 29 else DAYS_IN_MONTH ! nat mm) \<and>
         DAYS_BEFORE_MONTH ! nat mm + (if mm > 2 \<and> leap then 1 else 0) + dd = n + 1"
proof -
  from n have "0 \<le> n" "n < 366" by (auto split: if_splits)
  then have "1 \<le> m \<and> m \<le> 12" unfolding m_def by (rule month_estimate_bounds)
  then have c: "m = 1 \<or> m = 2 \<or> m = 3 \<or> m = 4 \<or> m = 5 \<or> m = 6 \<or> m = 7 \<or> m = 8 \<or> m = 9 \<or>
     m = 10 \<or> m = 11 \<or> m = 12"
    by (simp add: month_cases)
  have r: "32 * m - 50 \<le> n \<and> n \<le> 32 * m - 19"
    using month_estimate_range [of n m] by (simp add: m_def)
  from c r n show ?thesis
    unfolding mm_def dd_def preceding_def DAYS_BEFORE_MONTH_def DAYS_IN_MONTH_def
    by (elim disjE; simp split: if_splits)
qed

lemma days_before_year_cycles:
  fixes n400 n100 n4 n1 :: int
  assumes "0 \<le> n100" "n100 \<le> 3" "0 \<le> n4" "n4 \<le> 24" "0 \<le> n1" "n1 \<le> 3"
  shows "days_before_year (400 * n400 + 100 * n100 + 4 * n4 + n1 + 1)
           = 146097 * n400 + 36524 * n100 + 1461 * n4 + 365 * n1"
proof -
  define y where "y = 400 * n400 + 100 * n100 + 4 * n4 + n1"
  have "y = 4 * (100 * n400 + 25 * n100 + n4) + n1" by (simp add: y_def)
  with assms have d4: "y div 4 = 100 * n400 + 25 * n100 + n4"
    by (intro int_div_pos_eq [where r = n1]) simp_all
  have "y = 100 * (4 * n400 + n100) + (4 * n4 + n1)" by (simp add: y_def)
  with assms have d100: "y div 100 = 4 * n400 + n100"
    by (intro int_div_pos_eq [where r = "4 * n4 + n1"]) simp_all
  have "y = 400 * n400 + (100 * n100 + 4 * n4 + n1)" by (simp add: y_def)
  with assms have d400: "y div 400 = n400"
    by (intro int_div_pos_eq [where r = "100 * n100 + 4 * n4 + n1"]) simp_all
  have "days_before_year (y + 1) = y * 365 + y div 4 - y div 100 + y div 400"
    by (simp add: days_before_year_def)
  then show ?thesis
    unfolding d4 d100 d400 by (simp add: y_def)
qed

lemma mod_eq_0_upto:
  fixes x k :: int
  shows "0 < x \<Longrightarrow> x \<le> k \<Longrightarrow> x mod k = 0 \<longleftrightarrow> x = k"
  by (cases "x = k") simp_all

lemma is_leap_cycles:
  fixes n400 n100 n4 n1 :: int
  assumes "0 \<le> n100" "n100 \<le> 3" "0 \<le> n4" "n4 \<le> 24" "0 \<le> n1" "n1 \<le> 3"
  shows "is_leap (400 * n400 + 100 * n100 + 4 * n4 + n1 + 1)
           \<longleftrightarrow> n1 = 3 \<and> (n4 \<noteq> 24 \<or> n100 = 3)"
proof -
  define y where "y = 400 * n400 + 100 * n100 + 4 * n4 + n1 + 1"
  have "y = 4 * (100 * n400 + 25 * n100 + n4) + (n1 + 1)" by (simp add: y_def)
  then have "y mod 4 = (n1 + 1) mod 4" by (simp only: mod_mult_self4)
  with assms have m4: "y mod 4 = 0 \<longleftrightarrow> n1 = 3"
    using mod_eq_0_upto [of "n1 + 1" 4] by auto
  have "y = 100 * (4 * n400 + n100) + (4 * n4 + n1 + 1)" by (simp add: y_def)
  then have "y mod 100 = (4 * n4 + n1 + 1) mod 100" by (simp only: mod_mult_self4)
  with assms have m100: "y mod 100 = 0 \<longleftrightarrow> n4 = 24 \<and> n1 = 3"
  proof -
    from assms have "n1 = 0 \<or> n1 = 1 \<or> n1 = 2 \<or> n1 = 3" by arith
    then have "4 * n4 + n1 + 1 = 100 \<longleftrightarrow> n4 = 24 \<and> n1 = 3"
      by (elim disjE; simp; arith)
    moreover from assms have "(4 * n4 + n1 + 1) mod 100 = 0 \<longleftrightarrow> 4 * n4 + n1 + 1 = 100"
      by (intro mod_eq_0_upto) simp_all
    ultimately show ?thesis using \<open>y mod 100 = (4 * n4 + n1 + 1) mod 100\<close> by simp
  qed
  have "y = 400 * n400 + (100 * n100 + 4 * n4 + n1 + 1)" by (simp add: y_def)
  then have "y mod 400 = (100 * n100 + 4 * n4 + n1 + 1) mod 400" by (simp only: mod_mult_self4)
  with assms have m400: "y mod 400 = 0 \<longleftrightarrow> n100 = 3 \<and> n4 = 24 \<and> n1 = 3"
  proof -
    from assms have "n1 = 0 \<or> n1 = 1 \<or> n1 = 2 \<or> n1 = 3" by arith
    moreover from assms have "n100 = 0 \<or> n100 = 1 \<or> n100 = 2 \<or> n100 = 3" by arith
    ultimately have "100 * n100 + 4 * n4 + n1 + 1 = 400 \<longleftrightarrow> n100 = 3 \<and> n4 = 24 \<and> n1 = 3"
      using assms(3,4) by (elim disjE; simp; arith)
    moreover from assms have "(100 * n100 + 4 * n4 + n1 + 1) mod 400 = 0
        \<longleftrightarrow> 100 * n100 + 4 * n4 + n1 + 1 = 400"
      by (intro mod_eq_0_upto) simp_all
    ultimately show ?thesis
      using \<open>y mod 400 = (100 * n100 + 4 * n4 + n1 + 1) mod 400\<close> by simp
  qed
  show ?thesis
    unfolding y_def [symmetric] is_leap_def m4 m100 m400 by auto
qed

lemma year_le_MAXYEAR:
  assumes "days_before_year y + k \<le> MAXORDINAL" "1 \<le> k"
  shows "y \<le> MAXYEAR"
proof (rule ccontr)
  assume "\<not> y \<le> MAXYEAR"
  then have "10000 \<le> y" by (simp add: MAXYEAR_def)
  then have "3652059 \<le> days_before_year y"
    using days_before_year_mono [of 10000 y] by (simp add: days_before_year_10000)
  with assms show False by (simp add: MAXORDINAL_def)
qed

lemma ord2ymd_correct:
  assumes n0: "1 \<le> n0" "n0 \<le> MAXORDINAL"
  shows "case ord2ymd n0 of (y, m, d) \<Rightarrow> check_date_fields y m d \<and> ymd2ord y m d = n0"
proof -
  define n where "n = n0 - 1"
  define n400 r1 n100 r2 n4 r3 n1 r4 where
    "n400 = n div 146097" and "r1 = n mod 146097" and
    "n100 = r1 div 36524" and "r2 = r1 mod 36524" and
    "n4 = r2 div 1461" and "r3 = r2 mod 1461" and
    "n1 = r3 div 365" and "r4 = r3 mod 365"
  define Y where "Y = 400 * n400 + 100 * n100 + 4 * n4 + n1 + 1"
  define leapyear where "leapyear \<longleftrightarrow> n1 = 3 \<and> (n4 \<noteq> 24 \<or> n100 = 3)"
  define m where "m = (r4 + 50) div 32"
  define preceding where
    "preceding = DAYS_BEFORE_MONTH ! nat m + (if m > 2 \<and> leapyear then 1 else 0)"
  define mm where "mm = (if preceding > r4 then m - 1 else m)"
  define dd where "dd = (if preceding > r4
                 then r4 - (preceding - (DAYS_IN_MONTH ! nat (m - 1)
                                        + (if m - 1 = 2 \<and> leapyear then 1 else 0))) + 1
                 else r4 - preceding + 1)"
  have res: "ord2ymd n0 = (if n1 = 4 \<or> n100 = 4 then (Y - 1, 12, 31) else (Y, mm, dd))"
    unfolding ord2ymd_def Let_def n_def [symmetric] n400_def [symmetric] r1_def [symmetric]
      n100_def [symmetric] r2_def [symmetric] n4_def [symmetric] r3_def [symmetric]
      n1_def [symmetric] r4_def [symmetric] mm_def dd_def preceding_def m_def leapyear_def Y_def
    by (simp add: algebra_simps)
  have n: "0 \<le> n" using n0 by (simp add: n_def)
  have e1: "n = 146097 * n400 + r1" by (simp add: n400_def r1_def)
  have e2: "r1 = 36524 * n100 + r2" by (simp add: n100_def r2_def)
  have e3: "r2 = 1461 * n4 + r3" by (simp add: n4_def r3_def)
  have e4: "r3 = 365 * n1 + r4" by (simp add: n1_def r4_def)
  have b1: "0 \<le> r1" "r1 < 146097" by (simp_all add: r1_def)
  have b2: "0 \<le> r2" "r2 < 36524" by (simp_all add: r2_def)
  have b3: "0 \<le> r3" "r3 < 1461" by (simp_all add: r3_def)
  have b4: "0 \<le> r4" "r4 < 365" by (simp_all add: r4_def)
  have q400: "0 \<le> n400" using n by (simp add: n400_def pos_imp_zdiv_nonneg_iff)
  have q100: "0 \<le> n100" "n100 \<le> 4"
    using b1 zdiv_mono1 [of r1 146096 36524] by (simp_all add: n100_def pos_imp_zdiv_nonneg_iff)
  have q4: "0 \<le> n4" "n4 \<le> 24"
    using b2 zdiv_mono1 [of r2 36523 1461] by (simp_all add: n4_def pos_imp_zdiv_nonneg_iff)
  have q1: "0 \<le> n1" "n1 \<le> 4"
    using b3 zdiv_mono1 [of r3 1460 365] by (simp_all add: n1_def pos_imp_zdiv_nonneg_iff)
  have tot: "n0 = 146097 * n400 + 36524 * n100 + 1461 * n4 + 365 * n1 + r4 + 1"
    using e1 e2 e3 e4 by (simp add: n_def)
  consider (A) "n100 = 4" | (B) "n100 \<le> 3" "n1 = 4" | (C) "n100 \<le> 3" "n1 \<le> 3"
    using q100 q1 by fastforce
  then show ?thesis
  proof cases
    case A
    with e2 b1 b2 have "r2 = 0" by simp
    then have z: "n4 = 0" "n1 = 0" "r4 = 0" by (simp_all add: n4_def r3_def n1_def r4_def)
    have Y: "Y - 1 = 400 * n400 + 100 * 3 + 4 * 24 + 3 + 1" by (simp add: Y_def A z)
    have d: "days_before_year (Y - 1) = 146097 * n400 + 145731"
      unfolding Y by (subst days_before_year_cycles) simp_all
    have l: "is_leap (Y - 1)"
      unfolding Y by (subst is_leap_cycles) simp_all
    have o: "ymd2ord (Y - 1) 12 31 = n0"
      by (simp add: ymd2ord_def d l days_before_month_def DAYS_BEFORE_MONTH_def tot A z)
    then have "days_before_year (Y - 1) + 366 \<le> MAXORDINAL"
      using n0 by (simp add: ymd2ord_def l days_before_month_def DAYS_BEFORE_MONTH_def)
    then have "Y - 1 \<le> MAXYEAR" by (rule year_le_MAXYEAR) simp
    moreover have "MINYEAR \<le> Y - 1" using q400 by (simp add: Y MINYEAR_def)
    ultimately have "check_date_fields (Y - 1) 12 31"
      by (simp add: check_date_fields_def days_in_month_def DAYS_IN_MONTH_def)
    with o A show ?thesis by (simp add: res)
  next
    case B
    with e4 b3 b4 have r4: "r4 = 0" by simp
    with e3 e4 b2 B have "1461 * n4 + 1460 < 36524" by simp
    then have n4: "n4 \<le> 23" by simp
    have Y: "Y - 1 = 400 * n400 + 100 * n100 + 4 * n4 + 3 + 1" by (simp add: Y_def B)
    have d: "days_before_year (Y - 1) = 146097 * n400 + 36524 * n100 + 1461 * n4 + 1095"
      unfolding Y using q100 q4 n4 B by (subst days_before_year_cycles) simp_all
    have l: "is_leap (Y - 1)"
      unfolding Y using q100 q4 n4 B by (subst is_leap_cycles) simp_all
    have o: "ymd2ord (Y - 1) 12 31 = n0"
      by (simp add: ymd2ord_def d l days_before_month_def DAYS_BEFORE_MONTH_def tot B r4)
    then have "days_before_year (Y - 1) + 366 \<le> MAXORDINAL"
      using n0 by (simp add: ymd2ord_def l days_before_month_def DAYS_BEFORE_MONTH_def)
    then have "Y - 1 \<le> MAXYEAR" by (rule year_le_MAXYEAR) simp
    moreover have "MINYEAR \<le> Y - 1" using q400 q100 q4 by (simp add: Y MINYEAR_def)
    ultimately have "check_date_fields (Y - 1) 12 31"
      by (simp add: check_date_fields_def days_in_month_def DAYS_IN_MONTH_def)
    with o B show ?thesis by (simp add: res)
  next
    case C
    have d: "days_before_year Y = 146097 * n400 + 36524 * n100 + 1461 * n4 + 365 * n1"
      unfolding Y_def using q100 q4 q1 C by (intro days_before_year_cycles) simp_all
    have l: "is_leap Y = leapyear"
      unfolding Y_def leapyear_def using q100 q4 q1 C by (intro is_leap_cycles) simp_all
    from b4 have "r4 < (if leapyear then 366 else 365)" by simp
    from month_part [OF b4(1) this]
    have md: "1 \<le> mm" "mm \<le> 12" "1 \<le> dd"
      "dd \<le> (if mm = 2 \<and> leapyear then 29 else DAYS_IN_MONTH ! nat mm)"
      "DAYS_BEFORE_MONTH ! nat mm + (if mm > 2 \<and> leapyear then 1 else 0) + dd = r4 + 1"
      unfolding mm_def dd_def preceding_def m_def by simp_all
    have o: "ymd2ord Y mm dd = n0"
      using md(5) by (simp add: ymd2ord_def d l days_before_month_def tot)
    then have "days_before_year Y + (r4 + 1) \<le> MAXORDINAL"
      using n0 md(5) by (simp add: ymd2ord_def l days_before_month_def)
    then have "Y \<le> MAXYEAR" using b4 by (intro year_le_MAXYEAR [of Y "r4 + 1"]) simp_all
    moreover have "MINYEAR \<le> Y" using q400 q100 q4 q1 by (simp add: Y_def MINYEAR_def)
    ultimately have "check_date_fields Y mm dd"
      using md by (simp add: check_date_fields_def days_in_month_def l)
    with o C show ?thesis by (simp add: res)
  qed
qed

lemma fromordinal_correct:
  assumes "1 \<le> n" "n \<le> MAXORDINAL"
  shows "valid_datetime (fromordinal n) \<and> toordinal (fromordinal n) = n"
  using ord2ymd_correct [OF assms]
  by (auto simp: fromordinal_def valid_datetime_def toordinal_def split: prod.splits)

lemma toordinal_bounds:
  "valid_datetime dt \<Longrightarrow> 1 \<le> toordinal dt \<and> toordinal dt \<le> MAXORDINAL"
  using ymd2ord_bounds [of "year dt" "month dt" "day dt"]
  by (simp add: valid_datetime_def toordinal_def)

lemma weekend_shift:
  fixes n :: int
  assumes "n \<le> 3652059" "5 \<le> (n + 6) mod 7"
  shows "n + (7 - (n + 6) mod 7) \<le> 3652059" and "(n + (7 - (n + 6) mod 7) + 6) mod 7 = 0"
    and "n < n + (7 - (n + 6) mod 7)" and "n + (7 - (n + 6) mod 7) \<le> n + 2"
  using assms by presburger+

lemma adjust_for_weekend_valid:
  assumes "valid_datetime occ"
  shows "\<exists>adj. adjust_for_weekend occ = Inr adj \<and> valid_datetime adj \<and>
           (if 5 \<le> weekday occ then next_monday_after occ adj else adj = occ)"
proof (cases "5 \<le> weekday occ")
  case False
  with assms show ?thesis by (simp add: adjust_for_weekend_def)
next
  case True
  define n where "n = toordinal occ"
  from assms have b: "1 \<le> n" "n \<le> 3652059"
    using toordinal_bounds [of occ] by (simp_all add: n_def MAXORDINAL_def)
  from True have w: "5 \<le> (n + 6) mod 7" by (simp add: weekday_def n_def)
  note s = weekend_shift [OF b(2) w]
  define k where "k = n + (7 - (n + 6) mod 7)"
  have k: "1 \<le> k" "k \<le> MAXORDINAL" using s b by (simp_all add: k_def MAXORDINAL_def)
  have a: "adjust_for_weekend occ = Inr (fromordinal k)"
    using True k w
    by (simp add: adjust_for_weekend_def find_next_weekday_def add_days_def weekday_def
        n_def [symmetric] k_def Let_def)
  from fromordinal_correct [OF k]
  have f: "valid_datetime (fromordinal k)" "toordinal (fromordinal k) = k" by simp_all
  have sk: "(k + 6) mod 7 = 0" "n < k" "k \<le> n + 2"
    using s unfolding k_def by simp_all
  have "next_monday_after occ (fromordinal k)"
    using sk by (simp add: next_monday_after_def weekday_def f n_def [symmetric])
  with a f True show ?thesis by simp
qed

section \<open>Properties of parsing and formatting\<close>

lemmas parse_defs = strptime_def format_regex_def day_dot_def month_dot_def re_d_def re_m_def
  re_Y_def re_dot_def nonzero_digit_def ascii_digit_def py_int_def digit_value_def
  new_datetime_def check_date_fields_def days_in_month_def is_leap_def DAYS_IN_MONTH_def
  MINYEAR_def MAXYEAR_def

lemma strptime_examples:
  "strptime ''15.06.1990'' = Inr \<lparr>year = 1990, month = 6, day = 15\<rparr>"
  "strptime ''20.06.1990'' = Inr \<lparr>year = 1990, month = 6, day = 20\<rparr>"
  "strptime ''10.06.1990'' = Inr \<lparr>year = 1990, month = 6, day = 10\<rparr>"
  "strptime ''29.02.2024'' = Inr \<lparr>year = 2024, month = 2, day = 29\<rparr>"
  by (simp_all add: parse_defs)

lemma dd_mm_yyyy_date_to_string: "dd_mm_yyyy (date_to_string dt)"
proof -
  have "ascii_digit (digit_char (k mod 10))" for k
  proof -
    have "nat (k mod 10) < length ''0123456789''" by simp
    then show ?thesis unfolding digit_char_def ascii_digit_def by (rule nth_mem)
  qed
  then show ?thesis
    by (simp add: dd_mm_yyyy_def date_to_string_def pad2_def pad4_def)
qed

lemma digit_cases:
  "ascii_digit c \<Longrightarrow>
   c = CHR ''0'' \<or> c = CHR ''1'' \<or> c = CHR ''2'' \<or> c = CHR ''3'' \<or> c = CHR ''4'' \<or>
   c = CHR ''5'' \<or> c = CHR ''6'' \<or> c = CHR ''7'' \<or> c = CHR ''8'' \<or> c = CHR ''9''"
  by (auto simp: ascii_digit_def)

lemma py_int_two: "ascii_digit a \<Longrightarrow> ascii_digit b \<Longrightarrow> py_int [a, b] = 10 * digit_value a + digit_value b"
  by (auto simp: py_int_def ascii_digit_def)

lemma py_int_one: "ascii_digit a \<Longrightarrow> py_int [a] = digit_value a"
  by (auto simp: py_int_def ascii_digit_def)

lemma py_int_blank: "ascii_digit a \<Longrightarrow> py_int [CHR '' '', a] = digit_value a"
  by (auto simp: py_int_def ascii_digit_def)

lemma digit_value_range: "ascii_digit a \<Longrightarrow> 0 \<le> digit_value a \<and> digit_value a \<le> 9"
  by (auto simp: ascii_digit_def digit_value_def)

lemma nonzero_digit_iff: "nonzero_digit a \<longleftrightarrow> ascii_digit a \<and> 1 \<le> digit_value a"
  by (auto simp: ascii_digit_def nonzero_digit_def digit_value_def)

lemma two_digit_day:
  assumes "ascii_digit a" "ascii_digit b"
  shows "(if a = CHR ''3'' \<and> b \<in> set ''01'' then [x] else []) @
         (if a \<in> set ''12'' \<and> ascii_digit b then [x] else []) @
         (if a = CHR ''0'' \<and> nonzero_digit b then [x] else [])
         = (if 1 \<le> 10 * digit_value a + digit_value b \<and> 10 * digit_value a + digit_value b \<le> 31
            then [x] else [])"
  using digit_cases [OF assms(1)] digit_cases [OF assms(2)]
  by (elim disjE; simp add: digit_value_def nonzero_digit_def ascii_digit_def)

lemma two_digit_day_other:
  assumes "\<not> (ascii_digit a \<and> ascii_digit b)"
  shows "(if a = CHR ''3'' \<and> b \<in> set ''01'' then [x] else []) @
         (if a \<in> set ''12'' \<and> ascii_digit b then [x] else []) @
         (if a = CHR ''0'' \<and> nonzero_digit b then [x] else []) = []"
  using assms by (auto simp: ascii_digit_def nonzero_digit_def)

lemma day_dot_two:
  assumes "b \<noteq> CHR ''.''" "a \<noteq> CHR '' ''"
  shows "day_dot (a # b # r) =
     (if ascii_digit a \<and> ascii_digit b \<and> 1 \<le> py_int [a, b] \<and> py_int [a, b] \<le> 31
      then map (\<lambda>r'. ([a, b], r')) (re_dot r) else [])"
proof (cases "ascii_digit a \<and> ascii_digit b")
  case True
  then have d: "ascii_digit a" "ascii_digit b" by simp_all
  have "re_d (a # b # r) =
     (if 1 \<le> 10 * digit_value a + digit_value b \<and> 10 * digit_value a + digit_value b \<le> 31
      then [([a, b], r)] else []) @ (if nonzero_digit a then [([a], b # r)] else [])"
    using assms two_digit_day [OF d, of "([a, b], r)"] by (simp add: re_d_def)
  then show ?thesis
    using assms d by (auto simp: day_dot_def py_int_two re_dot_def)
next
  case False
  have "re_d (a # b # r) = (if nonzero_digit a then [([a], b # r)] else [])"
    using assms two_digit_day_other [OF False, of "([a, b], r)"] by (simp add: re_d_def)
  then show ?thesis
    using assms False by (auto simp: day_dot_def re_dot_def)
qed

lemma day_dot_one:
  "day_dot (a # CHR ''.'' # r) = (if nonzero_digit a then [([a], r)] else [])"
  by (simp add: day_dot_def re_d_def re_dot_def ascii_digit_def nonzero_digit_def)

lemma day_dot_blank:
  assumes "b \<noteq> CHR ''.''"
  shows "day_dot (CHR '' '' # b # r) =
     (if nonzero_digit b then map (\<lambda>r'. ([CHR '' '', b], r')) (re_dot r) else [])"
  using assms by (simp add: day_dot_def re_d_def ascii_digit_def nonzero_digit_def)

lemma day_dot_short: "day_dot [] = []" "day_dot [a] = []"
  by (simp_all add: day_dot_def re_d_def re_dot_def)

lemma py_int_day_token: "py_int (day_token v) = py_int (take 2 (restore_day v))"
  by (auto simp: day_token_def restore_day_def py_int_def digit_value_def split: list.splits)

lemma day_dot_restore:
  "day_dot v =
     (case restore_day v of
        a # b # c # r \<Rightarrow>
          if ascii_digit a \<and> ascii_digit b \<and> c = CHR ''.'' \<and>
             1 \<le> py_int [a, b] \<and> py_int [a, b] \<le> 31
          then [(day_token v, r)] else []
      | _ \<Rightarrow> [])"
proof (cases v)
  case Nil
  then show ?thesis by (simp add: day_dot_short restore_day_def)
next
  case v: (Cons a w)
  show ?thesis
  proof (cases w)
    case Nil
    with v show ?thesis by (simp add: day_dot_short restore_day_def)
  next
    case w: (Cons b r)
    consider (one) "b = CHR ''.''" | (blank) "b \<noteq> CHR ''.''" "a = CHR '' ''"
      | (two) "b \<noteq> CHR ''.''" "a \<noteq> CHR '' ''" by blast
    then show ?thesis
    proof cases
      case one
      have "ascii_digit a \<and> 1 \<le> py_int [CHR ''0'', a] \<and> py_int [CHR ''0'', a] \<le> 31
              \<longleftrightarrow> nonzero_digit a"
        using digit_value_range [of a]
        by (auto simp: nonzero_digit_iff py_int_two ascii_digit_def digit_value_def)
      moreover have "ascii_digit CHR ''0''" by (simp add: ascii_digit_def)
      ultimately show ?thesis
        using one by (simp add: v w day_dot_one restore_day_def day_token_def)
    next
      case blank
      have "ascii_digit b \<and> 1 \<le> py_int [CHR ''0'', b] \<and> py_int [CHR ''0'', b] \<le> 31
              \<longleftrightarrow> nonzero_digit b"
        using digit_value_range [of b]
        by (auto simp: nonzero_digit_iff py_int_two ascii_digit_def digit_value_def)
      moreover have "ascii_digit CHR ''0''" by (simp add: ascii_digit_def)
      ultimately show ?thesis
        using blank
        by (cases r) (auto simp: v w day_dot_blank restore_day_def day_token_def re_dot_def)
    next
      case two
      then show ?thesis
        by (cases r) (auto simp: v w day_dot_two restore_day_def day_token_def re_dot_def)
    qed
  qed
qed

lemma two_digit_month:
  assumes "ascii_digit a" "ascii_digit b"
  shows "(if a = CHR ''1'' \<and> b \<in> set ''012'' then [x] else []) @
         (if a = CHR ''0'' \<and> nonzero_digit b then [x] else [])
         = (if 1 \<le> 10 * digit_value a + digit_value b \<and> 10 * digit_value a + digit_value b \<le> 12
            then [x] else [])"
  using digit_cases [OF assms(1)] digit_cases [OF assms(2)]
  by (elim disjE; simp add: digit_value_def nonzero_digit_def ascii_digit_def)

lemma two_digit_month_other:
  assumes "\<not> (ascii_digit a \<and> ascii_digit b)"
  shows "(if a = CHR ''1'' \<and> b \<in> set ''012'' then [x] else []) @
         (if a = CHR ''0'' \<and> nonzero_digit b then [x] else []) = []"
  using assms by (auto simp: ascii_digit_def nonzero_digit_def)

lemma month_dot_two:
  assumes "b \<noteq> CHR ''.''"
  shows "month_dot (a # b # r) =
     (if ascii_digit a \<and> ascii_digit b \<and> 1 \<le> py_int [a, b] \<and> py_int [a, b] \<le> 12
      then map (\<lambda>r'. ([a, b], r')) (re_dot r) else [])"
proof (cases "ascii_digit a \<and> ascii_digit b")
  case True
  then have d: "ascii_digit a" "ascii_digit b" by simp_all
  have "re_m (a # b # r) =
     (if 1 \<le> 10 * digit_value a + digit_value b \<and> 10 * digit_value a + digit_value b \<le> 12
      then [([a, b], r)] else []) @ (if nonzero_digit a then [([a], b # r)] else [])"
    using assms two_digit_month [OF d, of "([a, b], r)"] by (simp add: re_m_def)
  then show ?thesis
    using assms d by (auto simp: month_dot_def py_int_two re_dot_def)
next
  case False
  have "re_m (a # b # r) = (if nonzero_digit a then [([a], b # r)] else [])"
    using assms two_digit_month_other [OF False, of "([a, b], r)"] by (simp add: re_m_def)
  then show ?thesis
    using assms False by (auto simp: month_dot_def re_dot_def)
qed

lemma month_dot_one:
  "month_dot (a # CHR ''.'' # r) = (if nonzero_digit a then [([a], r)] else [])"
  by (simp add: month_dot_def re_m_def re_dot_def ascii_digit_def nonzero_digit_def)

lemma month_dot_short: "month_dot [] = []" "month_dot [a] = []"
  by (simp_all add: month_dot_def re_m_def re_dot_def)

lemma py_int_month_token: "py_int (month_token v) = py_int (take 2 (restore_month v))"
  by (auto simp: month_token_def restore_month_def py_int_def digit_value_def split: list.splits)

lemma month_dot_restore:
  "month_dot v =
     (case restore_month v of
        a # b # c # r \<Rightarrow>
          if ascii_digit a \<and> ascii_digit b \<and> c = CHR ''.'' \<and>
             1 \<le> py_int [a, b] \<and> py_int [a, b] \<le> 12
          then [(month_token v, r)] else []
      | _ \<Rightarrow> [])"
proof (cases v)
  case Nil
  then show ?thesis by (simp add: month_dot_short restore_month_def)
next
  case v: (Cons a w)
  show ?thesis
  proof (cases w)
    case Nil
    with v show ?thesis by (simp add: month_dot_short restore_month_def)
  next
    case w: (Cons b r)
    show ?thesis
    proof (cases "b = CHR ''.''")
      case True
      have "ascii_digit a \<and> 1 \<le> py_int [CHR ''0'', a] \<and> py_int [CHR ''0'', a] \<le> 12
              \<longleftrightarrow> nonzero_digit a"
        using digit_value_range [of a]
        by (auto simp: nonzero_digit_iff py_int_two ascii_digit_def digit_value_def)
      moreover have "ascii_digit CHR ''0''" by (simp add: ascii_digit_def)
      ultimately show ?thesis
        using True by (simp add: v w month_dot_one restore_month_def month_token_def)
    next
      case False
      then show ?thesis
        by (cases r) (auto simp: v w month_dot_two restore_month_def month_token_def re_dot_def)
    qed
  qed
qed

lemma re_Y_four:
  "re_Y v =
     (case v of
        a # b # c # d # r \<Rightarrow> if list_all ascii_digit [a, b, c, d] then [([a, b, c, d], r)] else []
      | _ \<Rightarrow> [])"
  by (simp add: re_Y_def split: list.splits)

lemma list3_cases: "length xs < 3 \<or> (\<exists>a b c r. xs = a # b # c # r)"
  by (cases xs; simp; rename_tac w, case_tac w; simp; rename_tac u, case_tac u; simp)

lemma list4_cases: "length xs < 4 \<or> (\<exists>a b c d r. xs = a # b # c # d # r)"
proof -
  from list3_cases [of xs] show ?thesis
  proof (elim disjE exE)
    fix a b c r
    assume "xs = a # b # c # r"
    then show ?thesis by (cases r) simp_all
  qed simp
qed

lemma days_in_month_le_31: "1 \<le> m \<Longrightarrow> m \<le> 12 \<Longrightarrow> days_in_month y m \<le> 31"
  using month_cases [of m]
  by (auto simp: days_in_month_def DAYS_IN_MONTH_def)

lemma py_int_four:
  assumes "list_all ascii_digit [a, b, c, d]"
  shows "0 \<le> py_int [a, b, c, d] \<and> py_int [a, b, c, d] \<le> 9999"
proof -
  have "x \<noteq> CHR '' ''" if "ascii_digit x" for x
    using that by (auto simp: ascii_digit_def)
  with assms have "py_int [a, b, c, d]
      = 1000 * digit_value a + 100 * digit_value b + 10 * digit_value c + digit_value d"
    by (simp add: py_int_def)
  with assms digit_value_range [of a] digit_value_range [of b] digit_value_range [of c]
    digit_value_range [of d]
  show ?thesis by simp
qed

lemma strptime_restore_zeros:
  "strptime v =
     (let z = restore_zeros v
      in if dd_mm_yyyy z \<and> real_calendar_date z \<and> 1 \<le> year_field z
         then Inr \<lparr>year = year_field z, month = month_field z, day = day_field z\<rparr>
         else Inl ValueError)"
proof -
  define p where "p = restore_day v"
  define q where "q = restore_month (drop 3 p)"
  define z where "z = restore_zeros v"
  have z: "z = take 3 p @ q" by (simp add: z_def restore_zeros_def p_def q_def Let_def)
  have goal_fail: ?thesis if "strptime v = Inl ValueError"
    "\<not> (dd_mm_yyyy z \<and> real_calendar_date z)"
    using that by (auto simp: z_def Let_def)
  from list3_cases [of p] show ?thesis
  proof (elim disjE exE)
    assume short: "length p < 3"
    then have "day_dot v = []"
      using day_dot_restore [of v] by (auto simp: p_def [symmetric] split: list.splits)
    then have "strptime v = Inl ValueError" by (simp add: strptime_def format_regex_def)
    moreover from short have "length z < 10" by (simp add: z q_def restore_month_def)
    then have "\<not> dd_mm_yyyy z" by (simp add: dd_mm_yyyy_def)
    ultimately show ?thesis by (intro goal_fail) simp_all
  next
    fix a b c r
    assume p: "p = a # b # c # r"
    define dayok where "dayok \<longleftrightarrow> ascii_digit a \<and> ascii_digit b \<and> c = CHR ''.'' \<and>
      1 \<le> py_int [a, b] \<and> py_int [a, b] \<le> 31"
    have dd: "day_dot v = (if dayok then [(day_token v, r)] else [])"
      using day_dot_restore [of v] by (simp add: p_def [symmetric] p dayok_def)
    have dt: "py_int (day_token v) = py_int [a, b]"
      by (simp add: py_int_day_token p_def [symmetric] p)
    have q: "q = restore_month r" by (simp add: q_def p)
    have z3: "z = a # b # c # q" by (simp add: z p)
    have df: "day_field z = py_int [a, b]" by (simp add: day_field_def z3)
    have mf: "month_field z = py_int (take 2 q)" by (simp add: month_field_def z3)
    show ?thesis
    proof (cases dayok)
      case False
      then have "strptime v = Inl ValueError" by (simp add: strptime_def format_regex_def dd)
      moreover have "\<not> (dd_mm_yyyy z \<and> real_calendar_date z)"
      proof
        assume h: "dd_mm_yyyy z \<and> real_calendar_date z"
        then have "ascii_digit a" "ascii_digit b" "c = CHR ''.''"
          by (simp_all add: dd_mm_yyyy_def z3)
        moreover from h have "1 \<le> py_int [a, b]" "py_int [a, b] \<le> 31"
          using days_in_month_le_31 [of "month_field z" "year_field z"]
          by (simp_all add: real_calendar_date_def df)
        ultimately show False using False by (simp add: dayok_def)
      qed
      ultimately show ?thesis by (rule goal_fail)
    next
      case dayok: True
      then have c: "c = CHR ''.''" and dab: "ascii_digit a" "ascii_digit b"
        by (simp_all add: dayok_def)
      have fr: "format_regex v =
          concat (map (\<lambda>(m, r2). map (\<lambda>(y, r3). ((day_token v, m, y), r3)) (re_Y r2)) (month_dot r))"
        by (simp add: format_regex_def dd dayok)
      from list3_cases [of q] show ?thesis
      proof (elim disjE exE)
        assume short: "length q < 3"
        then have "month_dot r = []"
          using month_dot_restore [of r] by (auto simp: q [symmetric] split: list.splits)
        then have "strptime v = Inl ValueError" by (simp add: strptime_def fr)
        moreover from short have "\<not> dd_mm_yyyy z" by (simp add: dd_mm_yyyy_def z3)
        ultimately show ?thesis by (intro goal_fail) simp_all
      next
        fix e f g r2
        assume qq: "q = e # f # g # r2"
        define monthok where "monthok \<longleftrightarrow> ascii_digit e \<and> ascii_digit f \<and> g = CHR ''.'' \<and>
          1 \<le> py_int [e, f] \<and> py_int [e, f] \<le> 12"
        have md: "month_dot r = (if monthok then [(month_token r, r2)] else [])"
          using month_dot_restore [of r] by (simp add: q [symmetric] qq monthok_def)
        have mt: "py_int (month_token r) = py_int [e, f]"
          by (simp add: py_int_month_token q [symmetric] qq)
        have z6: "z = a # b # c # e # f # g # r2" by (simp add: z3 qq)
        have mf: "month_field z = py_int [e, f]" by (simp add: month_field_def z6)
        have yf: "year_field z = py_int r2" by (simp add: year_field_def z6)
        show ?thesis
        proof (cases monthok)
          case False
          then have "strptime v = Inl ValueError" by (simp add: strptime_def fr md)
          moreover have "\<not> (dd_mm_yyyy z \<and> real_calendar_date z)"
          proof
            assume h: "dd_mm_yyyy z \<and> real_calendar_date z"
            then have "ascii_digit e" "ascii_digit f" "g = CHR ''.''"
              by (simp_all add: dd_mm_yyyy_def z6)
            moreover from h have "1 \<le> py_int [e, f]" "py_int [e, f] \<le> 12"
              by (simp_all add: real_calendar_date_def mf)
            ultimately show False using False by (simp add: monthok_def)
          qed
          ultimately show ?thesis by (rule goal_fail)
        next
          case monthok: True
          then have g: "g = CHR ''.''" and def: "ascii_digit e" "ascii_digit f"
            and mr: "1 \<le> py_int [e, f]" "py_int [e, f] \<le> 12"
            by (simp_all add: monthok_def)
          have fr2: "format_regex v =
              map (\<lambda>(y, r3). ((day_token v, month_token r, y), r3)) (re_Y r2)"
            by (simp add: fr md monthok)
          from list4_cases [of r2] show ?thesis
          proof (elim disjE exE)
            assume short: "length r2 < 4"
            then have "re_Y r2 = []" by (auto simp: re_Y_four split: list.splits)
            then have "strptime v = Inl ValueError" by (simp add: strptime_def fr2)
            moreover from short have "\<not> dd_mm_yyyy z" by (simp add: dd_mm_yyyy_def z6)
            ultimately show ?thesis by (intro goal_fail) simp_all
          next
            fix y1 y2 y3 y4 rest
            assume r2: "r2 = y1 # y2 # y3 # y4 # rest"
            show ?thesis
            proof (cases "list_all ascii_digit [y1, y2, y3, y4] \<and> rest = []")
              case False
              then have "strptime v = Inl ValueError"
                by (auto simp: strptime_def fr2 re_Y_four r2)
              moreover from False have "\<not> dd_mm_yyyy z"
                by (auto simp: dd_mm_yyyy_def z6 r2)
              ultimately show ?thesis by (intro goal_fail) simp_all
            next
              case True
              then have rest: "rest = []" and ys: "list_all ascii_digit [y1, y2, y3, y4]"
                by simp_all
              have sp: "strptime v = new_datetime (py_int [y1, y2, y3, y4]) (py_int [e, f])
                  (py_int [a, b])"
                using ys by (simp add: strptime_def fr2 re_Y_four r2 rest mt dt)
              have ddz: "dd_mm_yyyy z"
                using ys dab def by (simp add: dd_mm_yyyy_def z6 r2 rest c g)
              have yf': "year_field z = py_int [y1, y2, y3, y4]" by (simp add: yf r2 rest)
              from py_int_four [OF ys] have "py_int [y1, y2, y3, y4] \<le> 9999" by simp
              then have "check_date_fields (py_int [y1, y2, y3, y4]) (py_int [e, f]) (py_int [a, b])
                  \<longleftrightarrow> real_calendar_date z \<and> 1 \<le> year_field z"
                by (auto simp: check_date_fields_def real_calendar_date_def df mf yf' MINYEAR_def
                    MAXYEAR_def)
              with sp ddz show ?thesis
                by (simp add: new_datetime_def z_def [symmetric] Let_def df mf yf')
            qed
          qed
        qed
      qed
    qed
  qed
qed

lemma restore_zeros_padded: "dd_mm_yyyy v \<Longrightarrow> restore_zeros v = v"
proof -
  assume h: "dd_mm_yyyy v"
  then have "length v = 10" by (simp add: dd_mm_yyyy_def)
  then obtain a b c e f g r where v: "v = a # b # c # e # f # g # r"
    using list3_cases [of v] list3_cases [of "drop 3 v"] by auto
  from h have "ascii_digit a" "ascii_digit b" "ascii_digit f"
    by (simp_all add: dd_mm_yyyy_def v)
  then have "a \<noteq> CHR '' ''" "b \<noteq> CHR ''.''" "f \<noteq> CHR ''.''"
    by (auto simp: ascii_digit_def)
  then show ?thesis
    by (simp add: restore_zeros_def restore_day_def restore_month_def v)
qed





lemma digit_char_value:
  assumes "0 \<le> k" "k \<le> 9"
  shows "digit_value (digit_char k) = k"
proof -
  from assms have "k = 0 \<or> k = 1 \<or> k = 2 \<or> k = 3 \<or> k = 4 \<or> k = 5 \<or> k = 6 \<or> k = 7 \<or> k = 8 \<or> k = 9"
    by arith
  then show ?thesis
    by (elim disjE; simp add: digit_char_def digit_value_def)
qed

lemma digit_char_digit: "ascii_digit (digit_char (k mod 10))"
proof -
  have "nat (k mod 10) < length ''0123456789''" by simp
  then show ?thesis unfolding digit_char_def ascii_digit_def by (rule nth_mem)
qed

lemma py_int_pad2:
  assumes "0 \<le> n" "n \<le> 99"
  shows "py_int (pad2 n) = n"
proof -
  from assms have "n div 10 mod 10 = n div 10" by simp
  have "py_int (pad2 n) = 10 * digit_value (digit_char (n div 10 mod 10))
      + digit_value (digit_char (n mod 10))"
    unfolding pad2_def by (intro py_int_two digit_char_digit)
  also have "\<dots> = 10 * (n div 10 mod 10) + n mod 10"
    by (simp add: digit_char_value)
  also have "\<dots> = n" using assms by simp
  finally show ?thesis .
qed

lemma py_int_pad4:
  assumes "0 \<le> n" "n \<le> 9999"
  shows "py_int (pad4 n) = n"
proof -
  have nb: "x \<noteq> CHR '' ''" if "ascii_digit x" for x
    using that by (auto simp: ascii_digit_def)
  have "py_int (pad4 n) = 1000 * digit_value (digit_char (n div 1000 mod 10))
      + 100 * digit_value (digit_char (n div 100 mod 10))
      + 10 * digit_value (digit_char (n div 10 mod 10)) + digit_value (digit_char (n mod 10))"
    using nb [OF digit_char_digit] by (simp add: pad4_def py_int_def)
  also have "\<dots> = 1000 * (n div 1000 mod 10) + 100 * (n div 100 mod 10)
      + 10 * (n div 10 mod 10) + n mod 10"
    by (simp add: digit_char_value)
  also have "\<dots> = n"
  proof -
    define x1 x2 x3 where "x1 = n div 10" and "x2 = x1 div 10" and "x3 = x2 div 10"
    have e: "n div 100 = x2" "n div 1000 = x3"
      using zdiv_zmult2_eq [of 10 n 10] zdiv_zmult2_eq [of 10 n 100]
        zdiv_zmult2_eq [of 10 x1 10]
      by (simp_all add: x1_def x2_def x3_def)
    have s: "n = 10 * x1 + n mod 10" "x1 = 10 * x2 + x1 mod 10" "x2 = 10 * x3 + x2 mod 10"
      by (simp_all add: x1_def x2_def x3_def)
    from assms have "0 \<le> x3" "x3 \<le> 9"
      unfolding e(2) [symmetric] by simp_all
    then have "x3 mod 10 = x3" by simp
    with s show ?thesis
      unfolding e x1_def [symmetric] by simp
  qed
  finally show ?thesis .
qed

lemma strptime_date_to_string:
  assumes "valid_datetime dt"
  shows "strptime (date_to_string dt) = Inr dt"
proof -
  let ?s = "date_to_string dt"
  from assms have y: "1 \<le> year dt" "year dt \<le> 9999" and m: "1 \<le> month dt" "month dt \<le> 12"
    and d: "1 \<le> day dt" "day dt \<le> days_in_month (year dt) (month dt)"
    by (simp_all add: valid_datetime_def check_date_fields_def MINYEAR_def MAXYEAR_def)
  from d days_in_month_le_31 [OF m, of "year dt"] have d31: "day dt \<le> 31" by simp
  have l: "length (pad2 n) = 2" for n by (simp add: pad2_def)
  have f: "day_field ?s = day dt" "month_field ?s = month dt" "year_field ?s = year dt"
    using y m d d31
    by (simp_all add: day_field_def month_field_def year_field_def date_to_string_def
        py_int_pad2 py_int_pad4 l)
  have "restore_zeros ?s = ?s"
    by (rule restore_zeros_padded) (rule dd_mm_yyyy_date_to_string)
  with y m d show ?thesis
    by (simp add: strptime_restore_zeros Let_def dd_mm_yyyy_date_to_string real_calendar_date_def f)
qed

section \<open>Occurrences\<close>

lemma strptime_Inl: "strptime s = Inl e \<Longrightarrow> e = ValueError"
  by (auto simp: strptime_def new_datetime_def split: list.splits prod.splits if_splits)

lemma replace_year_occurrence:
  "replace_year bd y = (case occurrence y bd of None \<Rightarrow> Inl ValueError | Some t \<Rightarrow> Inr t)"
  by (simp add: replace_year_def new_datetime_def occurrence_def)

lemma occurrence_valid: "occurrence y bd = Some t \<Longrightarrow> valid_datetime t"
  by (auto simp: occurrence_def valid_datetime_def split: if_splits)

lemma next_occurrence_valid: "next_occurrence today bd = Some occ \<Longrightarrow> valid_datetime occ"
  by (auto simp: next_occurrence_def split: option.splits if_splits dest: occurrence_valid)

lemma upcoming_of_next_occurrence:
  "upcoming_of today nm r =
     (case birthday r of
        None \<Rightarrow> Inr None
      | Some b \<Rightarrow>
          (case strptime (value_of b) of
             Inl e \<Rightarrow> Inl e
           | Inr bd \<Rightarrow>
               (case next_occurrence today bd of
                  None \<Rightarrow> Inl ValueError
                | Some occ \<Rightarrow>
                    if in_window today occ
                    then (case adjust_for_weekend occ of
                            Inl e \<Rightarrow> Inl e
                          | Inr adjusted \<Rightarrow>
                              Inr (Some \<lparr>contact = nm,
                                         congratulation_date = date_to_string adjusted\<rparr>))
                    else Inr None)))"
  by (auto simp: upcoming_of_def replace_year_occurrence next_occurrence_def in_window_def
      split: option.splits sum.splits)

lemma upcoming_of_ill_dated: "\<not> well_dated today r \<Longrightarrow> upcoming_of today nm r = Inl ValueError"
  by (auto simp: upcoming_of_next_occurrence well_dated_def
      split: option.splits sum.splits dest: strptime_Inl)

lemma upcoming_of_well_dated:
  assumes "well_dated today r"
  shows "(\<not> qualifies today r \<and> upcoming_of today nm r = Inr None) \<or>
         (qualifies today r \<and>
          (\<exists>c. upcoming_of today nm r = Inr (Some c) \<and> contact c = nm \<and> congratulates today r c))"
proof (cases "birthday r")
  case None
  then show ?thesis by (simp add: upcoming_of_next_occurrence qualifies_def)
next
  case (Some b)
  with assms obtain bd occ where p: "strptime (value_of b) = Inr bd"
    and o: "next_occurrence today bd = Some occ"
    by (auto simp: well_dated_def split: sum.splits)
  from adjust_for_weekend_valid [OF next_occurrence_valid [OF o]]
  obtain adj where a: "adjust_for_weekend occ = Inr adj" "valid_datetime adj"
    "if 5 \<le> weekday occ then next_monday_after occ adj else adj = occ"
    by blast
  show ?thesis
  proof (cases "in_window today occ")
    case True
    with Some p o a strptime_date_to_string [OF a(2)] show ?thesis
      by (auto simp: upcoming_of_next_occurrence qualifies_def congratulates_def)
  next
    case False
    with Some p o show ?thesis
      by (simp add: upcoming_of_next_occurrence qualifies_def)
  qed
qed

lemma upcoming_loop_ill_dated:
  "(nm, r) \<in> set book \<Longrightarrow> \<not> well_dated today r \<Longrightarrow>
   upcoming_loop today book acc = Inl ValueError"
proof (induction book arbitrary: acc)
  case Nil
  then show ?case by simp
next
  case (Cons p book)
  obtain k r0 where p: "p = (k, r0)" by (cases p)
  show ?case
  proof (cases "well_dated today r0")
    case False
    then show ?thesis by (simp add: p upcoming_of_ill_dated)
  next
    case True
    with Cons.prems p have "(nm, r) \<in> set book" by auto
    then have "\<And>acc. upcoming_loop today book acc = Inl ValueError"
      using Cons.IH Cons.prems(2) by blast
    with upcoming_of_well_dated [OF True, of k] show ?thesis
      by (auto simp: p)
  qed
qed

lemma upcoming_loop_well_dated:
  "list_all (\<lambda>(nm, r). well_dated today r) book \<Longrightarrow>
   \<exists>res. upcoming_loop today book acc = Inr (acc @ res) \<and>
     map contact res = [nm. (nm, r) \<leftarrow> book, qualifies today r] \<and>
     (\<forall>c \<in> set res. \<exists>r. (contact c, r) \<in> set book \<and> congratulates today r c)"
proof (induction book arbitrary: acc)
  case Nil
  then show ?case by simp
next
  case (Cons p book)
  obtain k r0 where p: "p = (k, r0)" by (cases p)
  from Cons.prems p have w: "well_dated today r0"
    and ws: "list_all (\<lambda>(nm, r). well_dated today r) book" by simp_all
  from upcoming_of_well_dated [OF w, of k] show ?case
  proof (elim disjE conjE exE)
    assume q: "\<not> qualifies today r0" and u: "upcoming_of today k r0 = Inr None"
    from Cons.IH [OF ws, of acc] obtain res where
      "upcoming_loop today book acc = Inr (acc @ res)"
      "map contact res = [nm. (nm, r) \<leftarrow> book, qualifies today r]"
      "\<forall>c \<in> set res. \<exists>r. (contact c, r) \<in> set book \<and> congratulates today r c"
      by blast
    with q u show ?thesis
      by (intro exI [of _ res]) (auto simp: p)
  next
    fix c
    assume q: "qualifies today r0" and u: "upcoming_of today k r0 = Inr (Some c)"
      and c: "contact c = k" "congratulates today r0 c"
    from Cons.IH [OF ws, of "acc @ [c]"] obtain res where
      "upcoming_loop today book (acc @ [c]) = Inr ((acc @ [c]) @ res)"
      "map contact res = [nm. (nm, r) \<leftarrow> book, qualifies today r]"
      "\<forall>c \<in> set res. \<exists>r. (contact c, r) \<in> set book \<and> congratulates today r c"
      by blast
    with q u c show ?thesis
      by (intro exI [of _ "c # res"]) (auto simp: p)
  qed
qed

lemma upcoming_loop_Inr_well_dated:
  "upcoming_loop today book acc = Inr out \<Longrightarrow> list_all (\<lambda>(nm, r). well_dated today r) book"
  using upcoming_loop_ill_dated [of _ _ book today acc]
  by (fastforce simp: list_all_iff)

section \<open>Upcoming birthdays\<close>

lemmas date_defs = toordinal_def ymd2ord_def days_before_year_def days_before_month_def
  DAYS_BEFORE_MONTH_def is_leap_def weekday_def

lemma upcoming_of_examples:
  "upcoming_of \<lparr>year = 2024, month = 6, day = 10\<rparr> ''Ann'' ann
     = Inr (Some \<lparr>contact = ''Ann'', congratulation_date = ''17.06.2024''\<rparr>)"
  "upcoming_of \<lparr>year = 2024, month = 6, day = 10\<rparr> ''Bob'' bob = Inr None"
  "upcoming_of \<lparr>year = 2024, month = 6, day = 10\<rparr> ''Cid'' cid = Inr None"
  "upcoming_of \<lparr>year = 2024, month = 6, day = 10\<rparr> ''Dan'' dan
     = Inr (Some \<lparr>contact = ''Dan'', congratulation_date = ''10.06.2024''\<rparr>)"
  by (simp_all add: upcoming_of_def ann_def bob_def cid_def dan_def strptime_examples
      replace_year_def new_datetime_def check_date_fields_def days_in_month_def DAYS_IN_MONTH_def
      MINYEAR_def MAXYEAR_def MAXORDINAL_def date_defs adjust_for_weekend_def find_next_weekday_def
      add_days_def fromordinal_def ord2ymd_def Let_def date_to_string_def pad2_def pad4_def
      digit_char_def)

lemma get_upcoming_contacts:
  "get_upcoming_birthdays \<lparr>year = 2024, month = 6, day = 10\<rparr> contacts
     = Inr [\<lparr>contact = ''Ann'', congratulation_date = ''17.06.2024''\<rparr>,
            \<lparr>contact = ''Dan'', congratulation_date = ''10.06.2024''\<rparr>]"
  by (simp add: get_upcoming_birthdays_def contacts_def upcoming_of_examples)

lemma qualifies_well_dated: "qualifies today r \<Longrightarrow> well_dated today r"
  by (auto simp: qualifies_def well_dated_def split: option.splits sum.splits)









text \<open>
  Claim C4. Every item that \<open>get_upcoming_birthdays\<close> returns comes from a record of the
  book under the item's name, and its congratulation date is in the format DD.MM.YYYY
  and reads back as a date: the next Monday strictly after the occurrence when the
  occurrence falls on a Saturday or a Sunday (weekday 5 or 6), the occurrence itself
  otherwise. With today
  the 10th of June 2024, the birthday 15.06.1990 gives 17.06.2024 and the birthday
  10.06.1990 gives 10.06.2024.
\<close>

theorem congratulation_date_weekend:
  "(\<forall>res c. get_upcoming_birthdays today book = Inr res \<and> c \<in> set res \<longrightarrow>
      dd_mm_yyyy (congratulation_date c) \<and>
      (\<exists>r. (contact c, r) \<in> set book \<and> congratulates today r c)) \<and>
   get_upcoming_birthdays \<lparr>year = 2024, month = 6, day = 10\<rparr> contacts
     = Inr [\<lparr>contact = ''Ann'', congratulation_date = ''17.06.2024''\<rparr>,
            \<lparr>contact = ''Dan'', congratulation_date = ''10.06.2024''\<rparr>]"
proof (intro conjI allI impI; (elim conjE)?)
  fix res c
  assume r: "get_upcoming_birthdays today book = Inr res" and c: "c \<in> set res"
  from r have "list_all (\<lambda>(nm, r). well_dated today r) book"
    unfolding get_upcoming_birthdays_def by (rule upcoming_loop_Inr_well_dated)
  from upcoming_loop_well_dated [OF this, of "[]"] r c
  show e: "\<exists>r. (contact c, r) \<in> set book \<and> congratulates today r c"
    by (auto simp: get_upcoming_birthdays_def)
  then show "dd_mm_yyyy (congratulation_date c)"
    by (auto simp: congratulates_def dd_mm_yyyy_date_to_string split: option.splits sum.splits)
next
  show "get_upcoming_birthdays \<lparr>year = 2024, month = 6, day = 10\<rparr> contacts
     = Inr [\<lparr>contact = ''Ann'', congratulation_date = ''17.06.2024''\<rparr>,
            \<lparr>contact = ''Dan'', congratulation_date = ''10.06.2024''\<rparr>]"
    by (rule get_upcoming_contacts)
qed

theorem congratulation_date_weekend_witness:
  "get_upcoming_birthdays \<lparr>year = 2024, month = 6, day = 10\<rparr> contacts
     = Inr [\<lparr>contact = ''Ann'', congratulation_date = ''17.06.2024''\<rparr>,
            \<lparr>contact = ''Dan'', congratulation_date = ''10.06.2024''\<rparr>] \<and>
   dd_mm_yyyy ''17.06.2024'' \<and>
   (\<exists>r. (''Ann'', r) \<in> set contacts \<and>
      congratulates \<lparr>year = 2024, month = 6, day = 10\<rparr> r
        \<lparr>contact = ''Ann'', congratulation_date = ''17.06.2024''\<rparr>)"
  using congratulation_date_weekend [of "\<lparr>year = 2024, month = 6, day = 10\<rparr>" contacts]
  by auto

lemma feb29_no_occurrence:
  "month bd = 2 \<Longrightarrow> day bd = 29 \<Longrightarrow> \<not> is_leap y \<Longrightarrow> occurrence y bd = None"
  by (simp add: occurrence_def check_date_fields_def days_in_month_def DAYS_IN_MONTH_def)

text \<open>
  Claim C5. If the book holds a record whose stored birthday parses to a 29th of
  February, and the year of today is not a leap year, \<open>get_upcoming_birthdays\<close> raises
  ValueError instead of returning a list, whatever the other records are.
\<close>

theorem feb29_raises:
  assumes "(nm, r) \<in> set book" "birthday r = Some b" "strptime (value_of b) = Inr bd"
    "month bd = 2" "day bd = 29" "\<not> is_leap (year today)"
  shows "get_upcoming_birthdays today book = Inl ValueError"
proof -
  from assms(4-6) have "next_occurrence today bd = None"
    by (simp add: next_occurrence_def feb29_no_occurrence)
  with assms(2,3) have "\<not> well_dated today r"
    by (simp add: well_dated_def)
  with assms(1) show ?thesis
    unfolding get_upcoming_birthdays_def by (rule upcoming_loop_ill_dated)
qed

theorem feb29_raises_witness:
  "(''Eve'', eve) \<in> set [(''Ann'', ann), (''Eve'', eve)] \<and>
   birthday eve = Some (Field ''29.02.2024'') \<and>
   strptime ''29.02.2024'' = Inr \<lparr>year = 2024, month = 2, day = 29\<rparr> \<and>
   \<not> is_leap 2025 \<and>
   get_upcoming_birthdays \<lparr>year = 2025, month = 2, day = 27\<rparr> [(''Ann'', ann), (''Eve'', eve)]
     = Inl ValueError"
proof -
  have l: "\<not> is_leap (year \<lparr>year = 2025, month = 2, day = 27\<rparr>)" by (simp add: is_leap_def)
  have b: "birthday eve = Some (Field ''29.02.2024'')" by (simp add: eve_def)
  have p: "strptime (value_of (Field ''29.02.2024'')) = Inr \<lparr>year = 2024, month = 2, day = 29\<rparr>"
    by (simp add: strptime_examples)
  have m: "(''Eve'', eve) \<in> set [(''Ann'', ann), (''Eve'', eve)]" by simp
  from feb29_raises [OF m b p _ _ l] l b p show ?thesis by simp
qed

end
